theory Spec2Isabelle
  imports Main
begin

section \<open>JavaScript strings\<close>

text \<open>
  A JavaScript string is a sequence of UTF-16 code units; a code unit is modelled as a
  natural number.  \<open>js\<close> turns an ASCII literal into such a sequence, so that inputs can
  be written as text.  The code units that the source names are
  \<open>10\<close> (line feed), \<open>36\<close> (dollar), \<open>62\<close> (greater-than, the quote marker),
  \<open>92\<close> (backslash), \<open>123\<close> and \<open>125\<close> (braces).
\<close>

type_synonym jsstring = "nat list"

definition js :: "string \<Rightarrow> jsstring" where
  "js s = map of_char s"

text \<open>ECMAScript \<open>LineTerminator\<close>: what the regular expression \<open>.\<close> does not match.\<close>

definition is_line_terminator :: "nat \<Rightarrow> bool" where
  "is_line_terminator c \<longleftrightarrow> c = 10 \<or> c = 13 \<or> c = 8232 \<or> c = 8233"

text \<open>ECMAScript \<open>WhiteSpace\<close> and \<open>LineTerminator\<close>: what \<open>trim()\<close> strips and \<open>\s\<close> matches.\<close>

definition is_space :: "nat \<Rightarrow> bool" where
  "is_space c \<longleftrightarrow>
     c = 9 \<or> c = 11 \<or> c = 12 \<or> c = 32 \<or> c = 160 \<or> c = 5760 \<or> (8192 \<le> c \<and> c \<le> 8202) \<or>
     c = 8239 \<or> c = 8287 \<or> c = 12288 \<or> c = 65279 \<or> is_line_terminator c"

text \<open>\<open>s.trim()\<close>\<close>

definition trim :: "jsstring \<Rightarrow> jsstring" where
  "trim s = rev (dropWhile is_space (rev (dropWhile is_space s)))"

text \<open>\<open>s.split('\n')\<close>: never empty, \<open>''.split('\n')\<close> is \<open>['']\<close>.\<close>

fun split_nl :: "jsstring \<Rightarrow> jsstring list" where
  "split_nl [] = [[]]"
| "split_nl (c # cs) =
     (if c = 10 then [] # split_nl cs
      else (case split_nl cs of [] \<Rightarrow> [[c]] | l # ls \<Rightarrow> (c # l) # ls))"

text \<open>\<open>ls.join('\n')\<close>\<close>

fun join_nl :: "jsstring list \<Rightarrow> jsstring" where
  "join_nl [] = []"
| "join_nl [l] = l"
| "join_nl (l # ls) = l @ 10 # join_nl ls"

text \<open>\<open>s.slice(a, b)\<close> for non-negative integers: clamped to the string, empty when \<open>b \<le> a\<close>.\<close>

definition slice :: "'a list \<Rightarrow> nat \<Rightarrow> nat \<Rightarrow> 'a list" where
  "slice s a b = take (b - a) (drop a s)"

text \<open>\<open>s.indexOf(d, i)\<close>: the first position at or after \<open>i\<close> where \<open>d\<close> occurs; \<open>None\<close> is \<open>-1\<close>.\<close>

definition index_of :: "jsstring \<Rightarrow> jsstring \<Rightarrow> nat \<Rightarrow> nat option" where
  "index_of s d i =
     List.find (\<lambda>j. take (length d) (drop j s) = d) [i ..< Suc (length s - length d)]"

text \<open>\<open>xs[i]\<close> on an array: \<open>None\<close> is \<open>undefined\<close>.\<close>

definition at_index :: "'a list \<Rightarrow> nat \<Rightarrow> 'a option" where
  "at_index xs i = (if i < length xs then Some (xs ! i) else None)"

section \<open>The callout math extractor\<close>

text \<open>\<open>line.replace(/^>\s?/, '')\<close>: one leading quote marker and at most one white-space
  code unit after it.\<close>

definition strip_quote :: "jsstring \<Rightarrow> jsstring" where
  "strip_quote l =
     (case l of
        [] \<Rightarrow> []
      | c # cs \<Rightarrow>
          (if c = 62 then (case cs of [] \<Rightarrow> [] | d # ds \<Rightarrow> (if is_space d then ds else cs))
           else l))"

record math_region =
  lineStart :: nat
  lineEnd :: nat
  startOffset :: nat
  endOffset :: nat
  mathText :: jsstring

definition delimiter :: jsstring where
  "delimiter = [36, 36]"

text \<open>The text recorded for the region between the two delimiters at \<open>startDelim\<close> and
  \<open>endDelim\<close>: trimmed, quote markers stripped line by line, trimmed again.\<close>

definition clean_math :: "jsstring \<Rightarrow> jsstring" where
  "clean_math between = trim (join_nl (map strip_quote (split_nl (trim between))))"

definition region_at :: "jsstring \<Rightarrow> nat \<Rightarrow> nat \<Rightarrow> nat \<Rightarrow> nat \<Rightarrow> math_region" where
  "region_at blockText blockStartLine blockStartOffset startDelim endDelim =
     \<lparr> lineStart = blockStartLine + (length (split_nl (slice blockText 0 startDelim)) - 1),
       lineEnd = blockStartLine + (length (split_nl (slice blockText 0 endDelim)) - 1),
       startOffset = blockStartOffset + startDelim,
       endOffset = blockStartOffset + (endDelim + length delimiter),
       mathText = clean_math (slice blockText (startDelim + length delimiter) endDelim) \<rparr>"

lemma find_upt_Some:
  "List.find P [i ..< n] = Some j \<longleftrightarrow>
     i \<le> j \<and> j < n \<and> P j \<and> (\<forall>k. i \<le> k \<and> k < j \<longrightarrow> \<not> P k)"
proof (induction "n - i" arbitrary: i)
  case 0
  then show ?case by auto
next
  case (Suc m)
  then have lt: "i < n" by simp
  have IH: "List.find P [Suc i ..< n] = Some j \<longleftrightarrow>
      Suc i \<le> j \<and> j < n \<and> P j \<and> (\<forall>k. Suc i \<le> k \<and> k < j \<longrightarrow> \<not> P k)"
    using Suc(1)[of "Suc i"] Suc(2) by simp
  have unf: "List.find P [i ..< n] = (if P i then Some i else List.find P [Suc i ..< n])"
    using upt_conv_Cons[OF lt] by simp
  show ?case
  proof (cases "P i")
    case True
    have "i = j \<longleftrightarrow> i \<le> j \<and> j < n \<and> P j \<and> (\<forall>k. i \<le> k \<and> k < j \<longrightarrow> \<not> P k)"
      using True lt by (metis le_refl not_less order.strict_iff_order)
    then show ?thesis using True unf by auto
  next
    case False
    have "(Suc i \<le> j \<and> j < n \<and> P j \<and> (\<forall>k. Suc i \<le> k \<and> k < j \<longrightarrow> \<not> P k))
       \<longleftrightarrow> (i \<le> j \<and> j < n \<and> P j \<and> (\<forall>k. i \<le> k \<and> k < j \<longrightarrow> \<not> P k))"
      using False by (metis Suc_leD Suc_leI le_neq_implies_less)
    then show ?thesis using False unf IH by simp
  qed
qed

lemma find_upt_None:
  "List.find P [i ..< n] = None \<longleftrightarrow> (\<forall>k. i \<le> k \<and> k < n \<longrightarrow> \<not> P k)"
  by (auto simp: find_None_iff)

definition occurs_at :: "jsstring \<Rightarrow> jsstring \<Rightarrow> nat \<Rightarrow> bool" where
  "occurs_at s d j \<longleftrightarrow> j + length d \<le> length s \<and> take (length d) (drop j s) = d"

lemma occurs_at_iff:
  "take (length d) (drop j s) = d \<and> j < Suc (length s - length d) \<longleftrightarrow> occurs_at s d j"
proof -
  have "j + length d \<le> length s"
    if m: "take (length d) (drop j s) = d" and b: "j < Suc (length s - length d)"
  proof -
    have "length (take (length d) (drop j s)) = length d" using m by simp
    then have "length d \<le> length s - j" by simp
    with b show ?thesis by arith
  qed
  then show ?thesis unfolding occurs_at_def by auto
qed

lemma index_of_Some:
  "index_of s d i = Some j \<longleftrightarrow>
     i \<le> j \<and> occurs_at s d j \<and> (\<forall>k. i \<le> k \<and> k < j \<longrightarrow> \<not> occurs_at s d k)"
proof -
  have "index_of s d i = Some j \<longleftrightarrow>
     i \<le> j \<and> j < Suc (length s - length d) \<and> take (length d) (drop j s) = d \<and>
     (\<forall>k. i \<le> k \<and> k < j \<longrightarrow> take (length d) (drop k s) \<noteq> d)"
    unfolding index_of_def find_upt_Some ..
  also have "\<dots> \<longleftrightarrow> i \<le> j \<and> occurs_at s d j \<and> (\<forall>k. i \<le> k \<and> k < j \<longrightarrow> \<not> occurs_at s d k)"
    using occurs_at_iff[of d _ s] by (metis less_trans)
  finally show ?thesis .
qed

lemma index_of_None:
  "index_of s d i = None \<longleftrightarrow> (\<forall>k. i \<le> k \<longrightarrow> \<not> occurs_at s d k)"
proof -
  have "index_of s d i = None \<longleftrightarrow>
     (\<forall>k. i \<le> k \<and> k < Suc (length s - length d) \<longrightarrow> take (length d) (drop k s) \<noteq> d)"
    unfolding index_of_def find_upt_None ..
  also have "\<dots> \<longleftrightarrow> (\<forall>k. i \<le> k \<longrightarrow> \<not> occurs_at s d k)"
    using occurs_at_iff[of d _ s] by metis
  finally show ?thesis .
qed

lemma index_of_bounds:
  assumes "index_of s d i = Some j"
  shows "i \<le> j" and "j + length d \<le> length s" and "take (length d) (drop j s) = d"
  using assms unfolding index_of_Some occurs_at_def by simp_all

text \<open>The \<open>while\<close> loop of \<open>findDisplayMathInCalloutBlock\<close>: \<open>i\<close> is the scan position,
  \<open>results\<close> the regions pushed so far.  The loop ends when no opening delimiter is found,
  and breaks when an opening delimiter has no closing one.\<close>

function find_loop :: "jsstring \<Rightarrow> nat \<Rightarrow> nat \<Rightarrow> nat \<Rightarrow> math_region list \<Rightarrow> math_region list" where
  "find_loop blockText blockStartLine blockStartOffset i results =
     (case index_of blockText delimiter i of
        None \<Rightarrow> results
      | Some startDelim \<Rightarrow>
          (case index_of blockText delimiter (startDelim + length delimiter) of
             None \<Rightarrow> results
           | Some endDelim \<Rightarrow>
               find_loop blockText blockStartLine blockStartOffset (endDelim + length delimiter)
                 (results @ [region_at blockText blockStartLine blockStartOffset startDelim endDelim])))"
  by pat_completeness auto
termination
proof (relation "measure (\<lambda>(blockText, _, _, i, _). Suc (length blockText) - i)", goal_cases)
  case 1
  show ?case by simp
next
  case (2 blockText blockStartLine blockStartOffset i results startDelim endDelim)
  from index_of_bounds(1)[OF 2(1)] index_of_bounds(1,2)[OF 2(2)]
  show ?case by (simp add: delimiter_def)
qed

declare find_loop.simps [simp del]

definition findDisplayMathInCalloutBlock :: "jsstring \<Rightarrow> nat \<Rightarrow> nat \<Rightarrow> math_region list" where
  "findDisplayMathInCalloutBlock blockText blockStartLine blockStartOffset =
     find_loop blockText blockStartLine blockStartOffset 0 []"

text \<open>
  How the loop of \<open>findDisplayMathInCalloutBlock\<close> is left from scan position \<open>i\<close>: by its
  condition, when no further opening delimiter is found (\<open>Exhausted\<close>), or by its
  \<open>break\<close>, when the opening delimiter at \<open>startDelim\<close> has no closing delimiter
  (\<open>Unterminated startDelim\<close>).  The function follows the control flow of \<open>find_loop\<close>
  and records nothing else.
\<close>

datatype scan_end = Exhausted | Unterminated nat

function scan_end_of :: "jsstring \<Rightarrow> nat \<Rightarrow> scan_end" where
  "scan_end_of blockText i =
     (case index_of blockText delimiter i of
        None \<Rightarrow> Exhausted
      | Some startDelim \<Rightarrow>
          (case index_of blockText delimiter (startDelim + length delimiter) of
             None \<Rightarrow> Unterminated startDelim
           | Some endDelim \<Rightarrow> scan_end_of blockText (endDelim + length delimiter)))"
  by pat_completeness auto
termination
proof (relation "measure (\<lambda>(blockText, i). Suc (length blockText) - i)", goal_cases)
  case 1
  show ?case by simp
next
  case (2 blockText i startDelim endDelim)
  from index_of_bounds(1)[OF 2(1)] index_of_bounds(1,2)[OF 2(2)]
  show ?case by (simp add: delimiter_def)
qed

declare scan_end_of.simps [simp del]

section \<open>The manual tag\<close>

text \<open>The five code units of the opening of a tag command: a backslash, then \<open>tag{\<close>.\<close>

definition tag_open :: jsstring where
  "tag_open = 92 # js ''tag{''"

text \<open>
  One attempt of the regular expression \<open>/\\tag\{(.*)\}/\<close> at the start of \<open>s\<close>.  After the
  opening, the greedy \<open>.*\<close> takes the rest of the line (\<open>.\<close> matches no line terminator) and
  gives back code units until a closing brace follows: the capture ends before the last
  closing brace of that line.
\<close>

definition match_tag_here :: "jsstring \<Rightarrow> jsstring option" where
  "match_tag_here s =
     (if take 5 s = tag_open then
        (let line = takeWhile (\<lambda>c. \<not> is_line_terminator c) (drop 5 s)
         in if 125 \<in> set line then Some (rev (tl (dropWhile (\<lambda>c. c \<noteq> 125) (rev line))))
            else None)
      else None)"

text \<open>\<open>mathText.match(/\\tag\{(.*)\}/)\<close>: the attempts go from left to right, the first that
  succeeds is the match; the result is its capture group.\<close>

fun tag_match :: "jsstring \<Rightarrow> jsstring option" where
  "tag_match [] = None"
| "tag_match (c # cs) =
     (case match_tag_here (c # cs) of Some t \<Rightarrow> Some t | None \<Rightarrow> tag_match cs)"

text \<open>\<open>tagMatch?.[1] ?? null\<close>\<close>

definition manualTag_of :: "jsstring \<Rightarrow> jsstring option" where
  "manualTag_of source = tag_match source"

section \<open>The outline supplied by the editor\<close>

record loc =
  loc_line :: nat
  loc_col :: nat
  loc_offset :: nat

record pos =
  pos_start :: loc
  pos_end :: loc

record heading_cache =
  hc_heading :: jsstring
  hc_level :: nat
  hc_position :: pos

record section_cache =
  sc_type :: jsstring
  sc_position :: pos
  sc_id :: "jsstring option"

record link_cache =
  lc_link :: jsstring
  lc_position :: pos

record frontmatter_link_cache =
  fl_link :: jsstring
  fl_displayText :: "jsstring option"

record cached_metadata =
  md_headings :: "heading_cache list option"
  md_sections :: "section_cache list option"
  md_links :: "link_cache list option"
  md_frontmatterLinks :: "frontmatter_link_cache list option"

section \<open>Helpers imported from other modules\<close>

text \<open>
  \<open>markdownImport\<close> imports these functions from \<open>utils/parse\<close>, \<open>index/utils/normalizers\<close> and
  \<open>index/expression/link\<close>.  They are parameters of the model: \<open>'s\<close> is the type of theorem
  callout settings, \<open>'l\<close> the type of links.  \<open>readTheoremCalloutSettings\<close> receives
  \<open>lines[start]\<close>, which is \<open>undefined\<close> (\<open>None\<close>) beyond the last line; \<open>parseLatexComment\<close>
  gives the \<open>comment\<close> field of its result; \<open>parseYamlLike\<close> gives an object, a finite map
  from keys to values.
\<close>

record ('s, 'l) helpers =
  readTheoremCalloutSettings :: "jsstring option \<Rightarrow> bool \<Rightarrow> 's option"
  legacy :: "'s \<Rightarrow> bool"
  trimMathText :: "jsstring \<Rightarrow> jsstring"
  parseLatexComment :: "jsstring \<Rightarrow> jsstring option"
  parseYamlLike :: "jsstring \<Rightarrow> (jsstring \<rightharpoonup> jsstring)"
  parseMarkdownComment :: "jsstring \<Rightarrow> jsstring list"
  getFileTitle :: "jsstring \<Rightarrow> jsstring"
  link_infer :: "jsstring \<Rightarrow> 'l"
  link_infer_frontmatter :: "jsstring \<Rightarrow> jsstring option \<Rightarrow> 'l"
  link_equals :: "'l \<Rightarrow> 'l \<Rightarrow> bool"

section \<open>The ordered map\<close>

text \<open>
  The \<open>BTree\<close> of the \<open>sorted-btree\<close> package with the comparator \<open>(a, b) => a - b\<close>: a list
  of pairs in ascending key order.  \<open>set\<close> overwrites the value of a key that is present.
\<close>

type_synonym 'v btree = "(int \<times> 'v) list"

fun bt_set :: "int \<Rightarrow> 'v \<Rightarrow> 'v btree \<Rightarrow> 'v btree" where
  "bt_set k v [] = [(k, v)]"
| "bt_set k v ((k', v') # t) =
     (if k < k' then (k, v) # (k', v') # t
      else if k = k' then (k, v) # t
      else (k', v') # bt_set k v t)"

fun getPairOrNextHigher :: "int \<Rightarrow> 'v btree \<Rightarrow> (int \<times> 'v) option" where
  "getPairOrNextHigher k [] = None"
| "getPairOrNextHigher k ((k', v') # t) =
     (if k \<le> k' then Some (k', v') else getPairOrNextHigher k t)"

fun getPairOrNextLower :: "int \<Rightarrow> 'v btree \<Rightarrow> (int \<times> 'v) option" where
  "getPairOrNextLower k [] = None"
| "getPairOrNextLower k ((k', v') # t) =
     (if k' \<le> k then (case getPairOrNextLower k t of None \<Rightarrow> Some (k', v') | Some p \<Rightarrow> Some p)
      else None)"

definition bt_get :: "int \<Rightarrow> 'v btree \<Rightarrow> 'v option" where
  "bt_get k t = map_of t k"

definition bt_values :: "'v btree \<Rightarrow> 'v list" where
  "bt_values t = map snd t"

text \<open>A value found by a lookup is an object; the source changes it in place.\<close>

definition bt_modify :: "int \<Rightarrow> ('v \<Rightarrow> 'v) \<Rightarrow> 'v btree \<Rightarrow> 'v btree" where
  "bt_modify k f t = map (\<lambda>(k', v). if k' = k then (k', f v) else (k', v)) t"

section \<open>The document model\<close>

datatype 's block_variant =
    Generic jsstring
  | Equation (eq_manualTag: "jsstring option") (eq_mathText: jsstring)
      (eq_label: "jsstring option") (eq_display: "jsstring option")
  | Theorem 's "jsstring option" "jsstring option" bool bool

record ('s, 'l) block =
  b_ordinal :: nat
  b_start :: int
  b_end :: int
  b_pos :: pos
  b_links :: "'l list"
  b_blockId :: "jsstring option"
  b_variant :: "'s block_variant"

text \<open>While the index is built, a section holds its blocks by reference: the blocks are
  objects owned by the block index, named here by their key in it.\<close>

record 'l markdown_section =
  s_ordinal :: nat
  s_title :: jsstring
  s_level :: nat
  s_start :: int
  s_end :: int
  s_blocks :: "int list"
  s_links :: "'l list"

record ('s, 'l) json_section =
  js_ordinal :: nat
  js_title :: jsstring
  js_level :: nat
  js_start :: int
  js_end :: int
  js_blocks :: "('s, 'l) block list"
  js_links :: "'l list"

record ('s, 'l) page =
  p_path :: jsstring
  p_links :: "'l list"
  p_sections :: "('s, 'l) json_section list"
  p_extension :: jsstring
  p_start :: int
  p_end :: int

datatype error = TypeError

section \<open>Sections\<close>

text \<open>\<open>emptylines\<close>: \<open>lines[index]\<close> beyond the array is \<open>undefined\<close>, and calling \<open>trim\<close> on
  it throws a \<open>TypeError\<close>.\<close>

function emptylines :: "jsstring list \<Rightarrow> int \<Rightarrow> int \<Rightarrow> error + bool" where
  "emptylines lines index endl =
     (if index < endl then
        (case (if 0 \<le> index then at_index lines (nat index) else None) of
           None \<Rightarrow> Inl TypeError
         | Some l \<Rightarrow> (if trim l \<noteq> [] then Inr False else emptylines lines (index + 1) endl))
      else Inr True)"
  by pat_completeness auto
termination
  by (relation "measure (\<lambda>(_, index, endl). nat (endl - index))") auto

text \<open>\<open>!lines.some((line) => line.trim() !== "")\<close>\<close>

definition empty_doc :: "jsstring list \<Rightarrow> bool" where
  "empty_doc lines = (\<not> list_ex (\<lambda>l. trim l \<noteq> []) lines)"

definition heading_line :: "heading_cache \<Rightarrow> nat" where
  "heading_line h = loc_line (pos_start (hc_position h))"

text \<open>\<open>metaheadings.sort((a, b) => a.position.start.line - b.position.start.line)\<close>: a
  stable sort, in place.\<close>

definition sort_headings :: "heading_cache list \<Rightarrow> heading_cache list" where
  "sort_headings hs = sort_key heading_line hs"

text \<open>The loop over the headings: \<open>n\<close> is \<open>lines.length\<close>, \<open>index\<close> the loop counter; the
  heading is the last one when no heading follows it.\<close>

fun heading_sections ::
  "nat \<Rightarrow> heading_cache list \<Rightarrow> nat \<Rightarrow> 'l markdown_section btree \<Rightarrow> 'l markdown_section btree" where
  "heading_sections n [] index sections = sections"
| "heading_sections n (h # rest) index sections =
     (let start = int (heading_line h);
          endl = (case rest of [] \<Rightarrow> int n - 1 | h' # _ \<Rightarrow> int (heading_line h') - 1)
      in heading_sections n rest (index + 1)
           (bt_set start
              \<lparr> s_ordinal = index + 1, s_title = hc_heading h, s_level = hc_level h,
                s_start = start, s_end = endl, s_blocks = [], s_links = [] \<rparr>
              sections))"

definition implicit_section :: "('s, 'l) helpers \<Rightarrow> jsstring \<Rightarrow> int \<Rightarrow> 'l markdown_section" where
  "implicit_section H path endl =
     \<lparr> s_ordinal = 0, s_title = getFileTitle H path, s_level = 1,
       s_start = 0, s_end = endl, s_blocks = [], s_links = [] \<rparr>"

definition add_implicit_section ::
  "('s, 'l) helpers \<Rightarrow> jsstring \<Rightarrow> jsstring list \<Rightarrow> 'l markdown_section btree
     \<Rightarrow> error + 'l markdown_section btree" where
  "add_implicit_section H path lines sections =
     (case getPairOrNextHigher 0 sections of
        None \<Rightarrow>
          (if \<not> empty_doc lines
           then Inr (bt_set 0 (implicit_section H path (int (length lines))) sections)
           else Inr sections)
      | Some firstSection \<Rightarrow>
          (case emptylines lines 0 (s_start (snd firstSection)) of
             Inl e \<Rightarrow> Inl e
           | Inr allEmpty \<Rightarrow>
               (if \<not> allEmpty
                then Inr (bt_set 0 (implicit_section H path (s_start (snd firstSection) - 1)) sections)
                else Inr sections)))"

definition build_sections ::
  "('s, 'l) helpers \<Rightarrow> jsstring \<Rightarrow> jsstring list \<Rightarrow> heading_cache list
     \<Rightarrow> error + 'l markdown_section btree" where
  "build_sections H path lines metaheadings =
     add_implicit_section H path lines (heading_sections (length lines) metaheadings 0 [])"

section \<open>Blocks\<close>

definition getBlockText :: "jsstring \<Rightarrow> section_cache \<Rightarrow> jsstring" where
  "getBlockText data block =
     slice data (loc_offset (pos_start (sc_position block))) (loc_offset (pos_end (sc_position block)))"

text \<open>The metadata read from the LaTeX comments of an equation: \<open>Object.assign\<close> line by
  line, a later key overwriting an earlier one; a missing or empty comment is skipped.\<close>

definition latex_metadata :: "('s, 'l) helpers \<Rightarrow> jsstring \<Rightarrow> (jsstring \<rightharpoonup> jsstring)" where
  "latex_metadata H source =
     foldl (\<lambda>m l. case parseLatexComment H l of
                     None \<Rightarrow> m
                   | Some comment \<Rightarrow> (if comment = [] then m else m ++ parseYamlLike H comment))
       Map.empty (split_nl source)"

text \<open>The metadata read from the Markdown comments of a callout body.\<close>

definition callout_metadata ::
  "('s, 'l) helpers \<Rightarrow> jsstring list \<Rightarrow> nat \<Rightarrow> nat \<Rightarrow> (jsstring \<rightharpoonup> jsstring)" where
  "callout_metadata H lines start endl =
     foldl (\<lambda>m l0. let l = (if l0 \<noteq> [] \<and> hd l0 = 62 then trim (tl l0) else l0)
                    in if l = [] then m
                       else if l = js ''main'' then m(js ''main'' \<mapsto> js ''true'')
                       else m ++ parseYamlLike H l)
       Map.empty (parseMarkdownComment H (join_nl (slice lines (start + 1) (endl + 1))))"

definition equation_block ::
  "('s, 'l) helpers \<Rightarrow> jsstring \<Rightarrow> section_cache \<Rightarrow> nat \<Rightarrow> ('s, 'l) block" where
  "equation_block H markdown block ordinal =
     (let source = trimMathText H (getBlockText markdown block);
          metadata = latex_metadata H source
      in \<lparr> b_ordinal = ordinal,
           b_start = int (loc_line (pos_start (sc_position block))),
           b_end = int (loc_line (pos_end (sc_position block))),
           b_pos = sc_position block, b_links = [], b_blockId = sc_id block,
           b_variant = Equation (manualTag_of source) source
                         (metadata (js ''label'')) (metadata (js ''display'')) \<rparr>)"

definition nested_equation_block ::
  "('s, 'l) helpers \<Rightarrow> math_region \<Rightarrow> nat \<Rightarrow> ('s, 'l) block" where
  "nested_equation_block H eq ordinal =
     (let metadata = latex_metadata H (mathText eq)
      in \<lparr> b_ordinal = ordinal,
           b_start = int (lineStart eq), b_end = int (lineEnd eq),
           b_pos = \<lparr> pos_start = \<lparr> loc_line = lineStart eq, loc_col = 0, loc_offset = startOffset eq \<rparr>,
                     pos_end = \<lparr> loc_line = lineEnd eq, loc_col = 0, loc_offset = endOffset eq \<rparr> \<rparr>,
           b_links = [], b_blockId = None,
           b_variant = Equation (manualTag_of (mathText eq)) (mathText eq)
                         (metadata (js ''label'')) (metadata (js ''display'')) \<rparr>)"

definition theorem_block ::
  "('s, 'l) helpers \<Rightarrow> jsstring list \<Rightarrow> section_cache \<Rightarrow> 's \<Rightarrow> nat \<Rightarrow> ('s, 'l) block" where
  "theorem_block H lines block settings ordinal =
     (let start = loc_line (pos_start (sc_position block));
          endl = loc_line (pos_end (sc_position block));
          metadata = callout_metadata H lines start endl
      in \<lparr> b_ordinal = ordinal, b_start = int start, b_end = int endl,
           b_pos = sc_position block, b_links = [], b_blockId = sc_id block,
           b_variant = Theorem settings (metadata (js ''label'')) (metadata (js ''display''))
                         (metadata (js ''main'') = Some (js ''true'')) (legacy H settings) \<rparr>)"

definition generic_block :: "section_cache \<Rightarrow> nat \<Rightarrow> ('s, 'l) block" where
  "generic_block block ordinal =
     \<lparr> b_ordinal = ordinal,
       b_start = int (loc_line (pos_start (sc_position block))),
       b_end = int (loc_line (pos_end (sc_position block))),
       b_pos = sc_position block, b_links = [], b_blockId = sc_id block,
       b_variant = Generic (sc_type block) \<rparr>"

text \<open>One round of the loop over the nested equations of a callout: the state is the
  block index and the counter \<open>blockOrdinal\<close>.\<close>

definition add_nested_equation ::
  "('s, 'l) helpers \<Rightarrow> ('s, 'l) block btree \<times> nat \<Rightarrow> math_region
     \<Rightarrow> ('s, 'l) block btree \<times> nat" where
  "add_nested_equation H st eq =
     (case st of (blocks, blockOrdinal) \<Rightarrow>
        (bt_set (int (lineStart eq)) (nested_equation_block H eq blockOrdinal) blocks,
         blockOrdinal + 1))"

text \<open>One round of the loop over \<open>metadata.sections\<close>.\<close>

definition block_step ::
  "('s, 'l) helpers \<Rightarrow> jsstring list \<Rightarrow> jsstring \<Rightarrow> bool \<Rightarrow> ('s, 'l) block btree \<times> nat
     \<Rightarrow> section_cache \<Rightarrow> ('s, 'l) block btree \<times> nat" where
  "block_step H lines markdown excludeExample st block =
     (case st of (blocks, blockOrdinal) \<Rightarrow>
        (if sc_type block = js ''heading'' then (blocks, blockOrdinal)
         else
           (let start = loc_line (pos_start (sc_position block));
                theoremCalloutSettings =
                  (if sc_type block = js ''callout''
                   then readTheoremCalloutSettings H (at_index lines start) excludeExample
                   else None)
            in if sc_type block = js ''math''
               then (bt_set (int start) (equation_block H markdown block blockOrdinal) blocks,
                     blockOrdinal + 1)
               else
                 (case theoremCalloutSettings of
                    Some settings \<Rightarrow>
                      (let equationsInCallout =
                             findDisplayMathInCalloutBlock (getBlockText markdown block) start
                               (loc_offset (pos_start (sc_position block)));
                           st1 = foldl (add_nested_equation H) (blocks, blockOrdinal) equationsInCallout
                       in (bt_set (int start) (theorem_block H lines block settings (snd st1)) (fst st1),
                           snd st1 + 1))
                  | None \<Rightarrow>
                      (bt_set (int start) (generic_block block blockOrdinal) blocks,
                       blockOrdinal + 1)))))"

definition build_blocks ::
  "('s, 'l) helpers \<Rightarrow> jsstring list \<Rightarrow> jsstring \<Rightarrow> bool \<Rightarrow> section_cache list
     \<Rightarrow> ('s, 'l) block btree \<times> nat" where
  "build_blocks H lines markdown excludeExample metasections =
     foldl (block_step H lines markdown excludeExample) ([], 1) metasections"

section \<open>Assembling the page\<close>

text \<open>\<open>section[1].$blocks.push(block)\<close>: the section receives a reference to the block.\<close>

definition assign_block ::
  "'l markdown_section btree \<Rightarrow> int \<times> ('s, 'l) block \<Rightarrow> 'l markdown_section btree" where
  "assign_block sections entry =
     (case getPairOrNextLower (b_start (snd entry)) sections of
        None \<Rightarrow> sections
      | Some sec \<Rightarrow>
          (if s_end (snd sec) \<ge> b_end (snd entry)
           then bt_modify (fst sec) (\<lambda>s. s\<lparr> s_blocks := s_blocks s @ [fst entry] \<rparr>) sections
           else sections))"

definition assign_blocks ::
  "('s, 'l) block btree \<Rightarrow> 'l markdown_section btree \<Rightarrow> 'l markdown_section btree" where
  "assign_blocks blocks sections = foldl assign_block sections blocks"

definition addLink :: "('l \<Rightarrow> 'l \<Rightarrow> bool) \<Rightarrow> 'l list \<Rightarrow> 'l \<Rightarrow> 'l list" where
  "addLink equals target incoming =
     (if list_ex (\<lambda>v. equals v incoming) target then target else target @ [incoming])"

definition add_block_link ::
  "('l \<Rightarrow> 'l \<Rightarrow> bool) \<Rightarrow> 'l \<Rightarrow> int \<Rightarrow> (int \<times> ('s, 'l) block) option
     \<Rightarrow> ('s, 'l) block btree \<Rightarrow> ('s, 'l) block btree" where
  "add_block_link equals lnk ln found blocks =
     (case found of
        None \<Rightarrow> blocks
      | Some blk \<Rightarrow>
          (if b_end (snd blk) \<ge> ln
           then bt_modify (fst blk) (\<lambda>b. b\<lparr> b_links := addLink equals (b_links b) lnk \<rparr>) blocks
           else blocks))"

definition add_section_link ::
  "('l \<Rightarrow> 'l \<Rightarrow> bool) \<Rightarrow> 'l \<Rightarrow> int \<Rightarrow> (int \<times> 'l markdown_section) option
     \<Rightarrow> 'l markdown_section btree \<Rightarrow> 'l markdown_section btree" where
  "add_section_link equals lnk ln found sections =
     (case found of
        None \<Rightarrow> sections
      | Some sec \<Rightarrow>
          (if s_end (snd sec) \<ge> ln
           then bt_modify (fst sec) (\<lambda>s. s\<lparr> s_links := addLink equals (s_links s) lnk \<rparr>) sections
           else sections))"

text \<open>One round of the loop over \<open>metadata.links\<close>: the state is the page's link list, the
  sections and the blocks.\<close>

definition link_step ::
  "('s, 'l) helpers \<Rightarrow> 'l list \<times> 'l markdown_section btree \<times> ('s, 'l) block btree \<Rightarrow> link_cache
     \<Rightarrow> 'l list \<times> 'l markdown_section btree \<times> ('s, 'l) block btree" where
  "link_step H st linkdef =
     (case st of (links, sections, blocks) \<Rightarrow>
        (let lnk = link_infer H (lc_link linkdef);
             ln = int (loc_line (pos_start (lc_position linkdef)));
             links1 = addLink (link_equals H) links lnk;
             sections1 = add_section_link (link_equals H) lnk ln (getPairOrNextLower ln sections) sections;
             blocks1 = add_block_link (link_equals H) lnk ln (getPairOrNextLower ln blocks) blocks;
             blocks2 = add_block_link (link_equals H) lnk ln (getPairOrNextHigher ln blocks1) blocks1
         in (links1, sections1, blocks2)))"

definition add_links ::
  "('s, 'l) helpers \<Rightarrow> 'l list \<times> 'l markdown_section btree \<times> ('s, 'l) block btree
     \<Rightarrow> link_cache list \<Rightarrow> 'l list \<times> 'l markdown_section btree \<times> ('s, 'l) block btree" where
  "add_links H st linkdefs = foldl (link_step H) st linkdefs"

definition add_frontmatter_links ::
  "('s, 'l) helpers \<Rightarrow> 'l list \<Rightarrow> frontmatter_link_cache list \<Rightarrow> 'l list" where
  "add_frontmatter_links H links linkdefs =
     foldl (\<lambda>ls linkdef.
              addLink (link_equals H) ls (link_infer_frontmatter H (fl_link linkdef) (fl_displayText linkdef)))
       links linkdefs"

text \<open>\<open>sections.valuesArray()\<close>: each reference to a block is followed to the block as
  it is at the end, with the links it has received.\<close>

definition deref_blocks :: "('s, 'l) block btree \<Rightarrow> int list \<Rightarrow> ('s, 'l) block list" where
  "deref_blocks blocks refs =
     concat (map (\<lambda>k. case bt_get k blocks of None \<Rightarrow> [] | Some b \<Rightarrow> [b]) refs)"

definition json_section_of ::
  "('s, 'l) block btree \<Rightarrow> 'l markdown_section \<Rightarrow> ('s, 'l) json_section" where
  "json_section_of blocks s =
     \<lparr> js_ordinal = s_ordinal s, js_title = s_title s, js_level = s_level s,
       js_start = s_start s, js_end = s_end s,
       js_blocks = deref_blocks blocks (s_blocks s), js_links = s_links s \<rparr>"

text \<open>
  \<open>markdownImport\<close> up to the end of the loop over \<open>metadata.links\<close>: the page's link
  list, the sections and the blocks at that point, or the error thrown.
\<close>

definition index_state ::
  "('s, 'l) helpers \<Rightarrow> jsstring \<Rightarrow> jsstring \<Rightarrow> cached_metadata \<Rightarrow> bool
     \<Rightarrow> error + ('l list \<times> 'l markdown_section btree \<times> ('s, 'l) block btree)" where
  "index_state H path markdown metadata excludeExample =
     (let lines = split_nl markdown;
          metaheadings = (case md_headings metadata of None \<Rightarrow> [] | Some hs \<Rightarrow> sort_headings hs)
      in (case build_sections H path lines metaheadings of
            Inl e \<Rightarrow> Inl e
          | Inr sections \<Rightarrow>
              (let blocks = fst (build_blocks H lines markdown excludeExample
                                   (case md_sections metadata of None \<Rightarrow> [] | Some ss \<Rightarrow> ss));
                   sections1 = assign_blocks blocks sections
               in Inr (add_links H ([], sections1, blocks)
                         (case md_links metadata of None \<Rightarrow> [] | Some ls \<Rightarrow> ls)))))"

text \<open>
  \<open>markdownImport\<close>.  The result is the page, or the error thrown, together with the
  outline as the call leaves it: the headings of the caller's outline are sorted in place.
\<close>

definition markdownImport ::
  "('s, 'l) helpers \<Rightarrow> jsstring \<Rightarrow> jsstring \<Rightarrow> cached_metadata \<Rightarrow> bool
     \<Rightarrow> (error + ('s, 'l) page) \<times> cached_metadata" where
  "markdownImport H path markdown metadata excludeExample =
     (let lines = split_nl markdown;
          metadata1 = metadata\<lparr> md_headings := map_option sort_headings (md_headings metadata) \<rparr>
      in (case index_state H path markdown metadata excludeExample of
            Inl e \<Rightarrow> (Inl e, metadata1)
          | Inr st \<Rightarrow>
              (let links = add_frontmatter_links H (fst st)
                             (case md_frontmatterLinks metadata of None \<Rightarrow> [] | Some ls \<Rightarrow> ls)
               in (Inr \<lparr> p_path = path, p_links = links,
                         p_sections = map (json_section_of (snd (snd st))) (bt_values (fst (snd st))),
                         p_extension = js ''md'', p_start = 0, p_end = int (length lines) \<rparr>,
                   metadata1))))"

section \<open>Resolving a rendered equation\<close>

text \<open>
  The renderers ask the indexed page for blocks.  The page class lives in
  \<open>index/typings/markdown\<close>; its three operations used here are parameters of the model.
\<close>

record ('s, 'l) markdown_page =
  getBlockByLineNumber :: "int \<Rightarrow> ('s, 'l) block option"
  getBlockByOffset :: "nat \<Rightarrow> ('s, 'l) block option"
  getEquationBlocksInRange :: "int \<Rightarrow> int \<Rightarrow> ('s, 'l) block list"

definition isEquationBlock :: "('s, 'l) block \<Rightarrow> bool" where
  "isEquationBlock b = (case b_variant b of Equation _ _ _ _ \<Rightarrow> True | _ \<Rightarrow> False)"

definition isTheoremCalloutBlock :: "('s, 'l) block \<Rightarrow> bool" where
  "isTheoremCalloutBlock b = (case b_variant b of Theorem _ _ _ _ _ \<Rightarrow> True | _ \<Rightarrow> False)"

text \<open>\<open>Array.from(nodes).indexOf(el)\<close>: the first position of the element, \<open>-1\<close> when it is
  not in the list.\<close>

fun indexOf_elem :: "'e list \<Rightarrow> 'e \<Rightarrow> int" where
  "indexOf_elem [] x = - 1"
| "indexOf_elem (y # ys) x =
     (if y = x then 0 else (let r = indexOf_elem ys x in if r < 0 then - 1 else r + 1))"

text \<open>
  \<open>matchByDomOrder\<close> is the part the two renderers share: \<open>calloutMjx\<close> is the list of display
  math elements of the closest callout element (\<open>None\<close> when there is no such element),
  \<open>equationsInRange\<close> the list the page returned; \<open>equationsInRange[ourIndex] ?? null\<close> is
  \<open>None\<close> beyond the list.
\<close>

definition matchByDomOrder ::
  "'e list option \<Rightarrow> 'e \<Rightarrow> ('s, 'l) block list \<Rightarrow> ('s, 'l) block option" where
  "matchByDomOrder calloutMjx el equationsInRange =
     (case calloutMjx of
        None \<Rightarrow> None
      | Some mjxInCallout \<Rightarrow>
          (let ourIndex = indexOf_elem mjxInCallout el
           in if ourIndex \<ge> 0 then at_index equationsInRange (nat ourIndex) else None))"

text \<open>Live preview, \<open>updateEquationNumber\<close>, for one rendered element: \<open>lineAt\<close> is the line
  number the editor reports for the element's position, \<open>None\<close> when that call throws.\<close>

definition live_preview_equation ::
  "('s, 'l) markdown_page \<Rightarrow> int option \<Rightarrow> nat \<Rightarrow> 'e list option \<Rightarrow> 'e \<Rightarrow> ('s, 'l) block option" where
  "live_preview_equation page lineAt position calloutMjx el =
     (let block = (case lineAt of
                     Some number \<Rightarrow> getBlockByLineNumber page (number - 1)
                   | None \<Rightarrow> getBlockByOffset page position)
      in case block of
           None \<Rightarrow> None
         | Some b \<Rightarrow>
             (if isEquationBlock b then Some b
              else if isTheoremCalloutBlock b
              then matchByDomOrder calloutMjx el (getEquationBlocksInRange page (b_start b) (b_end b))
              else None))"

record section_info =
  si_lineStart :: int
  si_lineEnd :: int

text \<open>Reading view, \<open>EquationNumberRenderer.getEquationCache\<close>.\<close>

definition getEquationCache ::
  "('s, 'l) markdown_page option \<Rightarrow> section_info option \<Rightarrow> 'e list option \<Rightarrow> 'e \<Rightarrow> int
     \<Rightarrow> ('s, 'l) block option" where
  "getEquationCache page info calloutMjx el lineOffset =
     (case (info, page) of
        (Some info, Some page) \<Rightarrow>
          (let block = (case getBlockByLineNumber page (si_lineStart info + lineOffset) of
                          Some b \<Rightarrow> Some b
                        | None \<Rightarrow> getBlockByLineNumber page (si_lineEnd info + lineOffset))
           in case block of
                None \<Rightarrow> None
              | Some b \<Rightarrow>
                  (if isEquationBlock b then Some b
                   else if isTheoremCalloutBlock b
                   then matchByDomOrder calloutMjx el
                          (getEquationBlocksInRange page (si_lineStart info) (si_lineEnd info))
                   else None))
      | _ \<Rightarrow> None)"

section \<open>The words of the specification\<close>

text \<open>
  The specification speaks of the argument of the first tag command.  Read by the
  braces, the argument of a tag command ends at the first closing brace after its
  opening; \<open>first_tag_argument\<close> is that reading, for the first opening in the text.
\<close>

fun first_tag_argument :: "jsstring \<Rightarrow> jsstring option" where
  "first_tag_argument [] = None"
| "first_tag_argument (c # cs) =
     (if take 5 (c # cs) = tag_open then Some (takeWhile (\<lambda>x. x \<noteq> 125) (drop 5 (c # cs)))
      else first_tag_argument cs)"


section \<open>The writes of the block pass\<close>

definition block_start_line :: "section_cache \<Rightarrow> nat" where
  "block_start_line block = loc_line (pos_start (sc_position block))"

text \<open>The calls of \<open>blocks.set\<close> that one round of the loop makes, in order, when it starts with
  the counter at \<open>blockOrdinal\<close>.\<close>

definition step_writes ::
  "('s, 'l) helpers \<Rightarrow> jsstring list \<Rightarrow> jsstring \<Rightarrow> bool \<Rightarrow> nat \<Rightarrow> section_cache
     \<Rightarrow> (int \<times> ('s, 'l) block) list" where
  "step_writes H lines markdown excludeExample blockOrdinal block =
     (if sc_type block = js ''heading'' then []
      else if sc_type block = js ''math''
      then [(int (block_start_line block), equation_block H markdown block blockOrdinal)]
      else
        (case (if sc_type block = js ''callout''
               then readTheoremCalloutSettings H (at_index lines (block_start_line block)) excludeExample
               else None) of
           Some settings \<Rightarrow>
             (let eqs = findDisplayMathInCalloutBlock (getBlockText markdown block)
                          (block_start_line block) (loc_offset (pos_start (sc_position block)))
              in map (\<lambda>i. (int (lineStart (eqs ! i)), nested_equation_block H (eqs ! i) (blockOrdinal + i)))
                   [0 ..< length eqs]
                 @ [(int (block_start_line block),
                     theorem_block H lines block settings (blockOrdinal + length eqs))])
         | None \<Rightarrow> [(int (block_start_line block), generic_block block blockOrdinal)]))"

fun all_writes ::
  "('s, 'l) helpers \<Rightarrow> jsstring list \<Rightarrow> jsstring \<Rightarrow> bool \<Rightarrow> nat \<Rightarrow> section_cache list
     \<Rightarrow> (int \<times> ('s, 'l) block) list" where
  "all_writes H lines markdown excludeExample blockOrdinal [] = []"
| "all_writes H lines markdown excludeExample blockOrdinal (block # rest) =
     (let ws = step_writes H lines markdown excludeExample blockOrdinal block
      in ws @ all_writes H lines markdown excludeExample (blockOrdinal + length ws) rest)"

definition apply_writes :: "'v btree \<Rightarrow> (int \<times> 'v) list \<Rightarrow> 'v btree" where
  "apply_writes t ws = foldl (\<lambda>t w. bt_set (fst w) (snd w) t) t ws"

text \<open>The keys of an ordered map are strictly ascending.\<close>

definition bt_sorted :: "'v btree \<Rightarrow> bool" where
  "bt_sorted t = sorted_wrt (<) (map fst t)"

section \<open>The sections as a list\<close>

text \<open>The entries that the loop over the headings stores, written as a list; a list of
  spans is contiguous from \<open>lo\<close> to \<open>hi\<close> when each span starts where the one before it
  ended; the fields of a section other than its blocks and links.\<close>

fun heading_entries :: "nat \<Rightarrow> heading_cache list \<Rightarrow> nat \<Rightarrow> 'l markdown_section btree" where
  "heading_entries n [] index = []"
| "heading_entries n (h # rest) index =
     (int (heading_line h),
      \<lparr> s_ordinal = index + 1, s_title = hc_heading h, s_level = hc_level h,
        s_start = int (heading_line h),
        s_end = (case rest of [] \<Rightarrow> int n - 1 | h' # _ \<Rightarrow> int (heading_line h') - 1),
        s_blocks = [], s_links = [] \<rparr>)
     # heading_entries n rest (index + 1)"

fun contiguous :: "(int \<times> int) list \<Rightarrow> int \<Rightarrow> int \<Rightarrow> bool" where
  "contiguous [] lo hi = (lo = hi + 1)"
| "contiguous ((a, b) # r) lo hi = (a = lo \<and> a \<le> b \<and> contiguous r (b + 1) hi)"

definition section_core :: "'l markdown_section \<Rightarrow> nat \<times> jsstring \<times> nat \<times> int \<times> int" where
  "section_core s = (s_ordinal s, s_title s, s_level s, s_start s, s_end s)"

definition json_core :: "('s, 'l) json_section \<Rightarrow> nat \<times> jsstring \<times> nat \<times> int \<times> int" where
  "json_core s = (js_ordinal s, js_title s, js_level s, js_start s, js_end s)"

section \<open>Links in the lists\<close>

text \<open>A list has a link when one of its elements equals it; a list is free of
  duplicates when no two of its positions hold equal links; a link with its line is
  attached in a state when the page's list has it and so has each section or block that
  the three lookups on that line find with an end at or after the line.  \<open>link_of\<close> and
  \<open>line_of\<close> are the link and the line that a round of the loop reads from an entry.\<close>

definition has_link :: "('l \<Rightarrow> 'l \<Rightarrow> bool) \<Rightarrow> 'l \<Rightarrow> 'l list \<Rightarrow> bool" where
  "has_link equals lnk ls = list_ex (\<lambda>v. equals v lnk) ls"

definition nodup :: "('l \<Rightarrow> 'l \<Rightarrow> bool) \<Rightarrow> 'l list \<Rightarrow> bool" where
  "nodup equals ls =
     (\<forall>i j. i < length ls \<and> j < length ls \<and> i \<noteq> j \<longrightarrow> \<not> equals (ls ! i) (ls ! j))"

definition attached ::
  "('l \<Rightarrow> 'l \<Rightarrow> bool) \<Rightarrow> 'l \<Rightarrow> int
     \<Rightarrow> 'l list \<times> 'l markdown_section btree \<times> ('s, 'l) block btree \<Rightarrow> bool" where
  "attached equals lnk ln st =
     (has_link equals lnk (fst st) \<and>
      (\<forall>e. getPairOrNextLower ln (fst (snd st)) = Some e \<and> s_end (snd e) \<ge> ln
           \<longrightarrow> has_link equals lnk (s_links (snd e))) \<and>
      (\<forall>e. getPairOrNextLower ln (snd (snd st)) = Some e \<and> b_end (snd e) \<ge> ln
           \<longrightarrow> has_link equals lnk (b_links (snd e))) \<and>
      (\<forall>e. getPairOrNextHigher ln (snd (snd st)) = Some e \<and> b_end (snd e) \<ge> ln
           \<longrightarrow> has_link equals lnk (b_links (snd e))))"

definition all_nodup ::
  "('l \<Rightarrow> 'l \<Rightarrow> bool) \<Rightarrow> 'l list \<times> 'l markdown_section btree \<times> ('s, 'l) block btree \<Rightarrow> bool" where
  "all_nodup equals st =
     (nodup equals (fst st) \<and>
      (\<forall>e\<in>set (fst (snd st)). nodup equals (s_links (snd e))) \<and>
      (\<forall>e\<in>set (snd (snd st)). nodup equals (b_links (snd e))))"

definition push_section_link :: "('l \<Rightarrow> 'l \<Rightarrow> bool) \<Rightarrow> 'l \<Rightarrow> 'l markdown_section \<Rightarrow> 'l markdown_section" where
  "push_section_link equals lnk s = s\<lparr> s_links := addLink equals (s_links s) lnk \<rparr>"

definition push_block_link :: "('l \<Rightarrow> 'l \<Rightarrow> bool) \<Rightarrow> 'l \<Rightarrow> ('s, 'l) block \<Rightarrow> ('s, 'l) block" where
  "push_block_link equals lnk b = b\<lparr> b_links := addLink equals (b_links b) lnk \<rparr>"

definition link_of :: "('s, 'l) helpers \<Rightarrow> link_cache \<Rightarrow> 'l" where
  "link_of H linkdef = link_infer H (lc_link linkdef)"

definition line_of :: "link_cache \<Rightarrow> int" where
  "line_of linkdef = int (loc_line (pos_start (lc_position linkdef)))"

text \<open>What is recorded for a region is right for the text it was taken from.\<close>

definition region_ok :: "jsstring \<Rightarrow> nat \<Rightarrow> nat \<Rightarrow> math_region \<Rightarrow> bool" where
  "region_ok blockText blockStartLine blockStartOffset r \<longleftrightarrow>
     (\<exists>startDelim endDelim.
        occurs_at blockText delimiter startDelim \<and>
        occurs_at blockText delimiter endDelim \<and>
        startDelim + 2 \<le> endDelim \<and>
        (\<forall>k. startDelim + 2 \<le> k \<and> k < endDelim \<longrightarrow> \<not> occurs_at blockText delimiter k) \<and>
        lineStart r = blockStartLine + count_list (take startDelim blockText) 10 \<and>
        lineEnd r = blockStartLine + count_list (take endDelim blockText) 10 \<and>
        startOffset r = blockStartOffset + startDelim \<and>
        endOffset r = blockStartOffset + endDelim + 2 \<and>
        mathText r = trim (join_nl (map strip_quote (split_nl
                       (trim (take (endDelim - (startDelim + 2)) (drop (startDelim + 2) blockText)))))))"

section \<open>An example page\<close>

text \<open>An equation block on line 1 of a page.\<close>

definition example_equation :: "(unit, nat) block" where
  "example_equation =
     \<lparr> b_ordinal = 1, b_start = 1, b_end = 1,
       b_pos = \<lparr> pos_start = \<lparr> loc_line = 1, loc_col = 0, loc_offset = 15 \<rparr>,
                 pos_end = \<lparr> loc_line = 1, loc_col = 0, loc_offset = 22 \<rparr> \<rparr>,
       b_links = [], b_blockId = None,
       b_variant = Equation None (js ''x'') None None \<rparr>"

text \<open>
  A page with that equation on line 1 and, further down, a heading on line 10 with a
  theorem callout on lines 11 to 13 below it; no equation block lies within the callout.
  The page answers for a line with the block that spans it, and for a range with the
  equation blocks that lie within it.
\<close>

definition example_embedded_callout :: "(unit, nat) block" where
  "example_embedded_callout =
     \<lparr> b_ordinal = 2, b_start = 11, b_end = 13,
       b_pos = \<lparr> pos_start = \<lparr> loc_line = 11, loc_col = 0, loc_offset = 110 \<rparr>,
                 pos_end = \<lparr> loc_line = 13, loc_col = 4, loc_offset = 140 \<rparr> \<rparr>,
       b_links = [], b_blockId = None,
       b_variant = Theorem () None None False False \<rparr>"

definition example_embedded_page :: "(unit, nat) markdown_page" where
  "example_embedded_page =
     \<lparr> getBlockByLineNumber =
         (\<lambda>l. if l = 1 then Some example_equation
              else if 11 \<le> l \<and> l \<le> 13 then Some example_embedded_callout else None),
       getBlockByOffset = (\<lambda>_. None),
       getEquationBlocksInRange =
         (\<lambda>s e. filter (\<lambda>b. s \<le> b_start b \<and> b_end b \<le> e) [example_equation]) \<rparr>"

text \<open>Stand-ins for the imported helpers: a callout is a theorem callout when its first
  line starts with \<open>> [!theorem\<close>, no comment carries metadata, a link is named by its text.\<close>

definition example_helpers :: "(unit, jsstring) helpers" where
  "example_helpers =
     \<lparr> readTheoremCalloutSettings =
         (\<lambda>l excludeExample. case l of
                None \<Rightarrow> None
              | Some t \<Rightarrow> (if take 11 t = js ''> [!theorem'' then Some () else None)),
       legacy = (\<lambda>_. False),
       trimMathText = (\<lambda>t. trim (slice t 2 (length t - 2))),
       parseLatexComment = (\<lambda>_. None),
       parseYamlLike = (\<lambda>_. Map.empty),
       parseMarkdownComment = (\<lambda>_. []),
       getFileTitle = (\<lambda>path. path),
       link_infer = (\<lambda>t. t),
       link_infer_frontmatter = (\<lambda>t _. t),
       link_equals = (=) \<rparr>"

text \<open>A theorem callout of four lines with one display math region.\<close>

definition example_callout_text :: jsstring where
  "example_callout_text =
     js ''> [!theorem]'' @ 10 # js ''> $$'' @ 10 # js ''> x = 1'' @ 10 # js ''> $$''"

text \<open>The outline entry of that callout.\<close>

definition example_callout_cache :: section_cache where
  "example_callout_cache =
     \<lparr> sc_type = js ''callout'',
       sc_position = \<lparr> pos_start = \<lparr> loc_line = 0, loc_col = 0, loc_offset = 0 \<rparr>,
                       pos_end = \<lparr> loc_line = 3, loc_col = 4, loc_offset = 30 \<rparr> \<rparr>,
       sc_id = None \<rparr>"

text \<open>A theorem callout with two display math regions on its second line, and its
  outline entry.\<close>

definition example_crowded_text :: jsstring where
  "example_crowded_text = js ''> [!theorem]'' @ 10 # js ''> $$a$$ $$b$$''"

definition example_crowded_cache :: section_cache where
  "example_crowded_cache =
     \<lparr> sc_type = js ''callout'',
       sc_position = \<lparr> pos_start = \<lparr> loc_line = 0, loc_col = 0, loc_offset = 0 \<rparr>,
                       pos_end = \<lparr> loc_line = 1, loc_col = 13, loc_offset = 26 \<rparr> \<rparr>,
       sc_id = None \<rparr>"

text \<open>The outline of a document whose first line is blank and whose second line is a
  heading.\<close>

definition example_blank_lead_outline :: cached_metadata where
  "example_blank_lead_outline =
     \<lparr> md_headings = Some [\<lparr> hc_heading = js ''H'', hc_level = 1,
                              hc_position = \<lparr> pos_start = \<lparr> loc_line = 1, loc_col = 0, loc_offset = 1 \<rparr>,
                                              pos_end = \<lparr> loc_line = 1, loc_col = 3, loc_offset = 4 \<rparr> \<rparr> \<rparr>],
       md_sections = Some [\<lparr> sc_type = js ''heading'',
                              sc_position = \<lparr> pos_start = \<lparr> loc_line = 1, loc_col = 0, loc_offset = 1 \<rparr>,
                                              pos_end = \<lparr> loc_line = 1, loc_col = 3, loc_offset = 4 \<rparr> \<rparr>,
                              sc_id = None \<rparr>],
       md_links = None,
       md_frontmatterLinks = None \<rparr>"

text \<open>A document of four lines, an introduction, a blank line, a heading and its body, and
  its outline.\<close>

definition example_intro_text :: jsstring where
  "example_intro_text = js ''intro'' @ 10 # 10 # js ''# H1'' @ 10 # js ''body''"

definition example_intro_heading :: heading_cache where
  "example_intro_heading =
     \<lparr> hc_heading = js ''H1'', hc_level = 1,
       hc_position = \<lparr> pos_start = \<lparr> loc_line = 2, loc_col = 0, loc_offset = 7 \<rparr>,
                       pos_end = \<lparr> loc_line = 2, loc_col = 4, loc_offset = 11 \<rparr> \<rparr> \<rparr>"

definition example_intro_outline :: cached_metadata where
  "example_intro_outline =
     \<lparr> md_headings = Some [example_intro_heading],
       md_sections = Some
         [\<lparr> sc_type = js ''paragraph'',
            sc_position = \<lparr> pos_start = \<lparr> loc_line = 0, loc_col = 0, loc_offset = 0 \<rparr>,
                            pos_end = \<lparr> loc_line = 0, loc_col = 5, loc_offset = 5 \<rparr> \<rparr>,
            sc_id = None \<rparr>,
          \<lparr> sc_type = js ''heading'',
            sc_position = \<lparr> pos_start = \<lparr> loc_line = 2, loc_col = 0, loc_offset = 7 \<rparr>,
                            pos_end = \<lparr> loc_line = 2, loc_col = 4, loc_offset = 11 \<rparr> \<rparr>,
            sc_id = None \<rparr>,
          \<lparr> sc_type = js ''paragraph'',
            sc_position = \<lparr> pos_start = \<lparr> loc_line = 3, loc_col = 0, loc_offset = 12 \<rparr>,
                            pos_end = \<lparr> loc_line = 3, loc_col = 4, loc_offset = 16 \<rparr> \<rparr>,
            sc_id = None \<rparr>],
       md_links = None,
       md_frontmatterLinks = None \<rparr>"

text \<open>The same document, with two occurrences of one link on its last line and one
  frontmatter link.\<close>

definition example_linked_outline :: cached_metadata where
  "example_linked_outline =
     example_intro_outline
       \<lparr> md_links := Some
           [\<lparr> lc_link = js ''Target'',
              lc_position = \<lparr> pos_start = \<lparr> loc_line = 3, loc_col = 0, loc_offset = 12 \<rparr>,
                              pos_end = \<lparr> loc_line = 3, loc_col = 2, loc_offset = 14 \<rparr> \<rparr> \<rparr>,
            \<lparr> lc_link = js ''Target'',
              lc_position = \<lparr> pos_start = \<lparr> loc_line = 3, loc_col = 2, loc_offset = 14 \<rparr>,
                              pos_end = \<lparr> loc_line = 3, loc_col = 4, loc_offset = 16 \<rparr> \<rparr> \<rparr>],
         md_frontmatterLinks := Some [\<lparr> fl_link = js ''Front'', fl_displayText = None \<rparr>] \<rparr>"

text \<open>The outline of a document without headings, sections and links.\<close>

definition example_plain_outline :: cached_metadata where
  "example_plain_outline =
     \<lparr> md_headings = None, md_sections = None, md_links = None, md_frontmatterLinks = None \<rparr>"

text \<open>The outline of a document whose first line is a heading.\<close>

definition example_top_heading_outline :: cached_metadata where
  "example_top_heading_outline =
     \<lparr> md_headings = Some [\<lparr> hc_heading = js ''x'', hc_level = 1,
                              hc_position = \<lparr> pos_start = \<lparr> loc_line = 0, loc_col = 0, loc_offset = 0 \<rparr>,
                                              pos_end = \<lparr> loc_line = 0, loc_col = 3, loc_offset = 3 \<rparr> \<rparr> \<rparr>],
       md_sections = Some [\<lparr> sc_type = js ''heading'',
                              sc_position = \<lparr> pos_start = \<lparr> loc_line = 0, loc_col = 0, loc_offset = 0 \<rparr>,
                                              pos_end = \<lparr> loc_line = 0, loc_col = 3, loc_offset = 3 \<rparr> \<rparr>,
                              sc_id = None \<rparr>],
       md_links = None,
       md_frontmatterLinks = None \<rparr>"

section \<open>Properties of the resolver\<close>

lemma theorem_not_equation: "isTheoremCalloutBlock b \<Longrightarrow> \<not> isEquationBlock b"
  by (auto simp: isTheoremCalloutBlock_def isEquationBlock_def split: block_variant.splits)

lemma matchByDomOrder_out_of_range:
  "int (length eqs) \<le> indexOf_elem mjx el \<Longrightarrow> matchByDomOrder (Some mjx) el eqs = None"
  by (simp add: matchByDomOrder_def at_index_def Let_def)

text \<open>
  In live preview the range asked of the page is the span of the callout found, so a
  position at or beyond the number of equation blocks within that span gives no match.
\<close>

lemma live_preview_out_of_range:
  assumes "isTheoremCalloutBlock b"
    and "(case lineAt of Some number \<Rightarrow> getBlockByLineNumber page (number - 1)
                        | None \<Rightarrow> getBlockByOffset page position) = Some b"
    and "int (length (getEquationBlocksInRange page (b_start b) (b_end b))) \<le> indexOf_elem mjx el"
  shows "live_preview_equation page lineAt position (Some mjx) el = None"
  using assms theorem_not_equation[OF assms(1)]
  by (simp add: live_preview_equation_def matchByDomOrder_out_of_range)

text \<open>
  Claim C7 does not hold of the reading view.  \<open>getEquationCache\<close> looks the block up at
  \<open>info.lineStart + lineOffset\<close> and then asks the page for the equations between
  \<open>info.lineStart\<close> and \<open>info.lineEnd\<close>, without the offset.  For the embedded part of the
  example page that starts at line 10, the section info of the callout is lines 1 to 3
  and the offset is 10: the block found is the callout on lines 11 to 13, no equation
  block lies within its span, so position 0 is out of range, and the result is the
  equation on line 1 of the page, outside the callout.  Live preview, which asks for the
  span of the callout, gives no match for the same element.
\<close>

theorem reading_view_range_ignores_line_offset:
  "isTheoremCalloutBlock example_embedded_callout \<and>
   getBlockByLineNumber example_embedded_page (1 + 10) = Some example_embedded_callout \<and>
   getEquationBlocksInRange example_embedded_page
     (b_start example_embedded_callout) (b_end example_embedded_callout) = [] \<and>
   indexOf_elem [7 :: nat] 7 = 0 \<and>
   getEquationCache (Some example_embedded_page) (Some \<lparr> si_lineStart = 1, si_lineEnd = 3 \<rparr>)
     (Some [7 :: nat]) 7 10 = Some example_equation \<and>
   live_preview_equation example_embedded_page (Some 12) 0 (Some [7 :: nat]) 7 = None"
  by (simp add: isTheoremCalloutBlock_def isEquationBlock_def example_embedded_callout_def
      example_embedded_page_def example_equation_def getEquationCache_def
      live_preview_equation_def matchByDomOrder_def at_index_def Let_def)

section \<open>Properties of the manual tag\<close>

lemma length_tag_open: "length tag_open = 5"
  by (simp add: tag_open_def js_def)

lemma tag_open_code: "tag_open = [92, 116, 97, 103, 123]"
  by (simp add: tag_open_def js_def)

lemma occurs_at_0: "occurs_at s tag_open 0 \<longleftrightarrow> take 5 s = tag_open"
proof
  assume "occurs_at s tag_open 0"
  then show "take 5 s = tag_open" by (simp add: occurs_at_def length_tag_open)
next
  assume t: "take 5 s = tag_open"
  then have "length (take 5 s) = 5" by (simp add: length_tag_open)
  then have "5 \<le> length s" by simp
  with t show "occurs_at s tag_open 0" by (simp add: occurs_at_def length_tag_open)
qed

lemma occurs_at_Cons: "occurs_at (c # s) d (Suc k) \<longleftrightarrow> occurs_at s d k"
  by (simp add: occurs_at_def)

lemma match_tag_here_fail: "\<not> occurs_at s tag_open 0 \<Longrightarrow> match_tag_here s = None"
  by (simp add: match_tag_here_def occurs_at_0)

lemma tag_match_none: "(\<forall>k. \<not> occurs_at s tag_open k) \<Longrightarrow> tag_match s = None"
proof (induction s)
  case Nil
  then show ?case by simp
next
  case (Cons c s)
  have "match_tag_here (c # s) = None" using Cons.prems by (simp add: match_tag_here_fail)
  moreover have "tag_match s = None"
    using Cons.IH Cons.prems occurs_at_Cons by blast
  ultimately show ?case by simp
qed

lemma match_tag_here_hit:
  assumes "\<forall>c\<in>set body. \<not> is_line_terminator c"
    and "125 \<notin> set (takeWhile (\<lambda>c. \<not> is_line_terminator c) rest)"
  shows "match_tag_here (tag_open @ body @ 125 # rest) = Some body"
proof -
  let ?r = "takeWhile (\<lambda>c. \<not> is_line_terminator c) rest"
  have nlt: "\<not> is_line_terminator 125" by (simp add: is_line_terminator_def)
  have line: "takeWhile (\<lambda>c. \<not> is_line_terminator c) (body @ 125 # rest) = body @ 125 # ?r"
    using assms(1) nlt by (simp add: takeWhile_append2)
  have "\<And>x. x \<in> set (rev ?r) \<Longrightarrow> x \<noteq> 125"
    using assms(2) by auto
  then have "dropWhile (\<lambda>c. c \<noteq> 125) (rev ?r @ 125 # rev body) = 125 # rev body"
    by (subst dropWhile_append2) simp_all
  then have "dropWhile (\<lambda>c. c \<noteq> 125) (rev (body @ 125 # ?r)) = 125 # rev body"
    by simp
  then have cap: "rev (tl (dropWhile (\<lambda>c. c \<noteq> 125) (rev (body @ 125 # ?r)))) = body"
    by simp
  show ?thesis
    unfolding match_tag_here_def using line cap by (simp add: length_tag_open Let_def)
qed

lemma tag_match_first:
  assumes "\<forall>k<length pre. \<not> occurs_at (pre @ tag_open @ body @ 125 # rest) tag_open k"
    and "\<forall>c\<in>set body. \<not> is_line_terminator c"
    and "125 \<notin> set (takeWhile (\<lambda>c. \<not> is_line_terminator c) rest)"
  shows "tag_match (pre @ tag_open @ body @ 125 # rest) = Some body"
  using assms(1)
proof (induction pre)
  case Nil
  have "tag_open @ body @ 125 # rest = 92 # (tl tag_open @ body @ 125 # rest)"
    by (simp add: tag_open_code)
  then show ?case using match_tag_here_hit[OF assms(2,3)]
    by (metis append_Nil option.simps(5) tag_match.simps(2))
next
  case (Cons c pre)
  have "match_tag_here (c # pre @ tag_open @ body @ 125 # rest) = None"
    using Cons.prems by (intro match_tag_here_fail) auto
  moreover have "tag_match (pre @ tag_open @ body @ 125 # rest) = Some body"
    using Cons.IH Cons.prems occurs_at_Cons
    by (metis Suc_less_eq append_Cons length_Cons)
  ultimately show ?case by simp
qed

lemma equation_block_manualTag:
  "eq_manualTag (b_variant (equation_block H markdown block n :: ('s, 'l) block)) =
     manualTag_of (eq_mathText (b_variant (equation_block H markdown block n :: ('s, 'l) block)))"
  by (simp add: equation_block_def Let_def)

lemma nested_equation_block_manualTag:
  "eq_manualTag (b_variant (nested_equation_block H eq n :: ('s, 'l) block)) =
     manualTag_of (eq_mathText (b_variant (nested_equation_block H eq n :: ('s, 'l) block)))"
  by (simp add: nested_equation_block_def Let_def)

text \<open>
  Claim C8 does not hold of the code.  The source says of the regular expression that it
  extracts the tag of a manually tagged equation, and its capture group is greedy: it
  runs to the last closing brace of the line.  In the source \<open>\tag{1} x^{2}\<close> the first
  tag command has the argument \<open>1\<close>, and the manual tag of the equation block is
  \<open>1} x^{2\<close>.
\<close>

theorem manual_tag_greedy_capture:
  "eq_manualTag (b_variant (nested_equation_block example_helpers
      \<lparr> lineStart = 1, lineEnd = 1, startOffset = 13, endOffset = 29,
        mathText = 92 # js ''tag{1} x^{2}'' \<rparr> 1 :: (unit, jsstring) block))
     = Some (js ''1} x^{2'') \<and>
   first_tag_argument (92 # js ''tag{1} x^{2}'') = Some (js ''1'') \<and>
   js ''1} x^{2'' \<noteq> js ''1''"
  by (simp add: nested_equation_block_def manualTag_of_def match_tag_here_def tag_open_def
      js_def is_line_terminator_def Let_def)

text \<open>
  What the capture is in general, for an equation block built from a math block or from
  a display math region of a callout with the LaTeX source \<open>source\<close>: null when no tag
  command opens in \<open>source\<close>; and when the first tag command opens after \<open>pre\<close> and is
  closed on its line, the text from its opening up to the last closing brace on that
  line.
\<close>

lemma manual_tag_capture:
  assumes "b = equation_block H markdown block n \<or> b = nested_equation_block H eq n"
    and "source = eq_mathText (b_variant b)"
  shows "((\<forall>k. \<not> occurs_at source tag_open k) \<longrightarrow> eq_manualTag (b_variant b) = None) \<and>
         (source = pre @ tag_open @ body @ 125 # rest \<and>
          (\<forall>k<length pre. \<not> occurs_at source tag_open k) \<and>
          (\<forall>c\<in>set body. \<not> is_line_terminator c) \<and>
          125 \<notin> set (takeWhile (\<lambda>c. \<not> is_line_terminator c) rest)
          \<longrightarrow> eq_manualTag (b_variant b) = Some body)"
proof -
  have m: "eq_manualTag (b_variant b) = tag_match source"
    using assms equation_block_manualTag[of H markdown block n]
      nested_equation_block_manualTag[of H eq n]
    by (auto simp: manualTag_of_def)
  show ?thesis
    unfolding m using tag_match_none[of source] tag_match_first[of pre body rest] by auto
qed

lemma manual_tag_capture_examples:
  "eq_manualTag (b_variant (nested_equation_block example_helpers
      \<lparr> lineStart = 1, lineEnd = 1, startOffset = 13, endOffset = 22, mathText = js ''x = 1'' \<rparr> 1
      :: (unit, jsstring) block)) = None \<and>
   eq_manualTag (b_variant (nested_equation_block example_helpers
      \<lparr> lineStart = 1, lineEnd = 1, startOffset = 13, endOffset = 22,
        mathText = js ''x '' @ tag_open @ js ''a{b}'' @ 125 # js '' %'' \<rparr> 1
      :: (unit, jsstring) block)) = Some (js ''a{b}'')"
proof -
  let ?e1 = "\<lparr> lineStart = 1, lineEnd = 1, startOffset = 13, endOffset = 22, mathText = js ''x = 1'' \<rparr>"
  let ?s2 = "js ''x '' @ tag_open @ js ''a{b}'' @ 125 # js '' %''"
  let ?e2 = "\<lparr> lineStart = 1, lineEnd = 1, startOffset = 13, endOffset = 22, mathText = ?s2 \<rparr>"
  let ?b1 = "nested_equation_block example_helpers ?e1 1 :: (unit, jsstring) block"
  let ?b2 = "nested_equation_block example_helpers ?e2 1 :: (unit, jsstring) block"
  have s1: "js ''x = 1'' = eq_mathText (b_variant ?b1)"
    by (simp add: nested_equation_block_def Let_def)
  have s2: "?s2 = eq_mathText (b_variant ?b2)"
    by (simp add: nested_equation_block_def Let_def)
  have h1: "\<forall>k. \<not> occurs_at (js ''x = 1'') tag_open k"
    by (auto simp: occurs_at_def js_def tag_open_def)
  have h2: "\<forall>k<length (js ''x ''). \<not> occurs_at ?s2 tag_open k"
    by (simp add: occurs_at_def js_def tag_open_def less_Suc_eq eval_nat_numeral)
  have h3: "\<forall>c\<in>set (js ''a{b}''). \<not> is_line_terminator c"
    by (simp add: js_def is_line_terminator_def)
  have h4: "125 \<notin> set (takeWhile (\<lambda>c. \<not> is_line_terminator c) (js '' %''))"
    by (simp add: js_def is_line_terminator_def)
  from manual_tag_capture[where b = ?b1 and H = example_helpers and eq = ?e1 and n = 1
      and source = "js ''x = 1''", OF _ s1]
  have r1: "eq_manualTag (b_variant ?b1) = None" using h1 by blast
  from manual_tag_capture[where b = ?b2 and H = example_helpers and eq = ?e2 and n = 1
      and source = ?s2 and pre = "js ''x ''" and body = "js ''a{b}''" and rest = "js '' %''", OF _ s2]
  have r2: "eq_manualTag (b_variant ?b2) = Some (js ''a{b}'')" using h2 h3 h4 by blast
  show ?thesis using r1 r2 by blast
qed

section \<open>Properties of the callout math extractor\<close>

lemma index_of_rec:
  "index_of s d i =
     (if length s < i + length d then None
      else if take (length d) (drop i s) = d then Some i
      else index_of s d (Suc i))"
proof -
  have n: "[i ..< Suc (length s - length d)] = i # [Suc i ..< Suc (length s - length d)]"
    if "\<not> length s < i + length d"
    using that by (intro upt_conv_Cons) arith
  show ?thesis
  proof (cases "length s < i + length d")
    case True
    then have "index_of s d i = None" by (simp add: index_of_None occurs_at_def)
    with True show ?thesis by simp
  next
    case False
    show ?thesis using False n[OF False] by (simp add: index_of_def)
  qed
qed

lemma length_delimiter: "length delimiter = 2"
  by (simp add: delimiter_def)

lemma split_nl_nonempty: "split_nl s \<noteq> []"
  by (induction s) (auto split: list.splits)

lemma length_split_nl: "length (split_nl s) = Suc (count_list s 10)"
proof (induction s)
  case Nil
  then show ?case by simp
next
  case (Cons c s)
  then show ?case using split_nl_nonempty[of s]
    by (cases "split_nl s") auto
qed

lemma region_at_ok:
  assumes "index_of blockText delimiter i = Some startDelim"
    and "index_of blockText delimiter (startDelim + length delimiter) = Some endDelim"
  shows "region_ok blockText l0 o0 (region_at blockText l0 o0 startDelim endDelim)"
proof -
  from assms(1) have s: "occurs_at blockText delimiter startDelim"
    by (simp add: index_of_Some)
  from assms(2) have e: "occurs_at blockText delimiter endDelim"
    and le: "startDelim + 2 \<le> endDelim"
    and no: "\<forall>k. startDelim + 2 \<le> k \<and> k < endDelim \<longrightarrow> \<not> occurs_at blockText delimiter k"
    by (simp_all add: index_of_Some length_delimiter)
  show ?thesis
    unfolding region_ok_def
    apply (rule exI[of _ startDelim], rule exI[of _ endDelim])
    using s e le no
    by (simp add: region_at_def slice_def length_split_nl length_delimiter clean_math_def)
qed

lemma find_loop_regions_ok:
  "\<forall>r\<in>set results. region_ok blockText l0 o0 r \<Longrightarrow>
   \<forall>r\<in>set (find_loop blockText l0 o0 i results). region_ok blockText l0 o0 r"
proof (induction blockText l0 o0 i results rule: find_loop.induct)
  case (1 blockText l0 o0 i results)
  show ?case
  proof (cases "index_of blockText delimiter i")
    case None
    then show ?thesis using 1(2) by (subst find_loop.simps) simp
  next
    case (Some startDelim)
    note s = this
    show ?thesis
    proof (cases "index_of blockText delimiter (startDelim + length delimiter)")
      case None
      then show ?thesis using 1(2) s by (subst find_loop.simps) simp
    next
      case (Some endDelim)
      have "\<forall>r\<in>set (results @ [region_at blockText l0 o0 startDelim endDelim]). region_ok blockText l0 o0 r"
        using 1(2) region_at_ok[OF s Some] by auto
      from 1(1)[OF s Some this] show ?thesis
        using s Some by (subst find_loop.simps) simp
    qed
  qed
qed

lemma occurs_at_take:
  "occurs_at (take n s) d k \<longleftrightarrow> occurs_at s d k \<and> k + length d \<le> n"
proof (cases "k + length d \<le> n")
  case True
  then have "take (length d) (drop k (take n s)) = take (length d) (drop k s)"
    by (simp add: drop_take min_def)
  with True show ?thesis by (auto simp: occurs_at_def)
next
  case False
  then show ?thesis by (auto simp: occurs_at_def)
qed

lemma index_of_take_Some:
  "index_of s d i = Some j \<Longrightarrow> j + length d \<le> n \<Longrightarrow> index_of (take n s) d i = Some j"
  by (auto simp: index_of_Some occurs_at_take)

lemma index_of_take_None:
  assumes "index_of s d i = Some j" and "n \<le> j" and "0 < length d"
  shows "index_of (take n s) d i = None"
proof -
  have "\<not> occurs_at (take n s) d k" if "i \<le> k" for k
  proof
    assume "occurs_at (take n s) d k"
    then have o: "occurs_at s d k" and kn: "k + length d \<le> n"
      by (simp_all add: occurs_at_take)
    have "k < j" using kn assms(2,3) by arith
    with assms(1) that o show False by (simp add: index_of_Some)
  qed
  then show ?thesis by (simp add: index_of_None)
qed

lemma scan_end_unterminated:
  "scan_end_of blockText i = Unterminated sd \<Longrightarrow>
     i \<le> sd \<and> occurs_at blockText delimiter sd \<and>
     (\<forall>k. sd + 2 \<le> k \<longrightarrow> \<not> occurs_at blockText delimiter k)"
proof (induction blockText i rule: scan_end_of.induct)
  case (1 blockText i)
  show ?case
  proof (cases "index_of blockText delimiter i")
    case None
    then show ?thesis using 1(2) by (subst (asm) scan_end_of.simps) simp
  next
    case (Some startDelim)
    note s = this
    show ?thesis
    proof (cases "index_of blockText delimiter (startDelim + length delimiter)")
      case None
      then have "sd = startDelim" using 1(2) s by (subst (asm) scan_end_of.simps) simp
      then show ?thesis using s None by (simp add: index_of_Some index_of_None length_delimiter)
    next
      case (Some endDelim)
      have "scan_end_of blockText (endDelim + length delimiter) = Unterminated sd"
        using 1(2) s Some by (subst (asm) scan_end_of.simps) simp
      from 1(1)[OF s Some this] index_of_bounds(1)[OF s] index_of_bounds(1)[OF Some]
      show ?thesis by (simp add: length_delimiter)
    qed
  qed
qed

lemma region_at_take:
  assumes "endDelim \<le> n" and "startDelim \<le> endDelim"
  shows "region_at (take n blockText) l0 o0 startDelim endDelim =
         region_at blockText l0 o0 startDelim endDelim"
  using assms by (simp add: region_at_def slice_def min_def drop_take)

lemma find_loop_truncate:
  "scan_end_of blockText i = Unterminated sd \<Longrightarrow>
   find_loop blockText l0 o0 i results = find_loop (take sd blockText) l0 o0 i results"
proof (induction blockText l0 o0 i results rule: find_loop.induct)
  case (1 blockText l0 o0 i results)
  show ?case
  proof (cases "index_of blockText delimiter i")
    case None
    then show ?thesis using 1(2) by (subst (asm) scan_end_of.simps) simp
  next
    case (Some startDelim)
    note s = this
    show ?thesis
    proof (cases "index_of blockText delimiter (startDelim + length delimiter)")
      case None
      then have sd: "sd = startDelim" using 1(2) s by (subst (asm) scan_end_of.simps) simp
      have "index_of (take sd blockText) delimiter i = None"
        using index_of_take_None[OF s, of sd] sd by (simp add: length_delimiter)
      then have "find_loop (take sd blockText) l0 o0 i results = results"
        by (subst find_loop.simps) simp
      moreover have "find_loop blockText l0 o0 i results = results"
        using s None by (subst find_loop.simps) simp
      ultimately show ?thesis by simp
    next
      case (Some endDelim)
      note e = this
      have nxt: "scan_end_of blockText (endDelim + length delimiter) = Unterminated sd"
        using 1(2) s e by (subst (asm) scan_end_of.simps) simp
      from scan_end_unterminated[OF nxt] have le: "endDelim + 2 \<le> sd"
        by (simp add: length_delimiter)
      from index_of_bounds(1)[OF e] have se: "startDelim + 2 \<le> endDelim"
        by (simp add: length_delimiter)
      have s': "index_of (take sd blockText) delimiter i = Some startDelim"
        using index_of_take_Some[OF s, of sd] le se by (simp add: length_delimiter)
      have e': "index_of (take sd blockText) delimiter (startDelim + length delimiter) = Some endDelim"
        using index_of_take_Some[OF e, of sd] le by (simp add: length_delimiter)
      have r: "region_at (take sd blockText) l0 o0 startDelim endDelim =
               region_at blockText l0 o0 startDelim endDelim"
        using region_at_take[of endDelim sd startDelim] le se by simp
      have "find_loop blockText l0 o0 i results =
            find_loop blockText l0 o0 (endDelim + length delimiter)
              (results @ [region_at blockText l0 o0 startDelim endDelim])"
        using s e by (subst find_loop.simps) simp
      also have "\<dots> = find_loop (take sd blockText) l0 o0 (endDelim + length delimiter)
              (results @ [region_at blockText l0 o0 startDelim endDelim])"
        using 1(1)[OF s e nxt] .
      also have "\<dots> = find_loop (take sd blockText) l0 o0 i results"
        using s' e' r by (subst (2) find_loop.simps) simp
      finally show ?thesis .
    qed
  qed
qed

lemma scan_end_truncate:
  "scan_end_of blockText i = Unterminated sd \<Longrightarrow> scan_end_of (take sd blockText) i = Exhausted"
proof (induction blockText i rule: scan_end_of.induct)
  case (1 blockText i)
  show ?case
  proof (cases "index_of blockText delimiter i")
    case None
    then show ?thesis using 1(2) by (subst (asm) scan_end_of.simps) simp
  next
    case (Some startDelim)
    note s = this
    show ?thesis
    proof (cases "index_of blockText delimiter (startDelim + length delimiter)")
      case None
      then have sd: "sd = startDelim" using 1(2) s by (subst (asm) scan_end_of.simps) simp
      have "index_of (take sd blockText) delimiter i = None"
        using index_of_take_None[OF s, of sd] sd by (simp add: length_delimiter)
      then show ?thesis by (subst scan_end_of.simps) simp
    next
      case (Some endDelim)
      note e = this
      have nxt: "scan_end_of blockText (endDelim + length delimiter) = Unterminated sd"
        using 1(2) s e by (subst (asm) scan_end_of.simps) simp
      from scan_end_unterminated[OF nxt] have le: "endDelim + 2 \<le> sd"
        by (simp add: length_delimiter)
      from index_of_bounds(1)[OF e] have se: "startDelim + 2 \<le> endDelim"
        by (simp add: length_delimiter)
      have s': "index_of (take sd blockText) delimiter i = Some startDelim"
        using index_of_take_Some[OF s, of sd] le se by (simp add: length_delimiter)
      have e': "index_of (take sd blockText) delimiter (startDelim + length delimiter) = Some endDelim"
        using index_of_take_Some[OF e, of sd] le by (simp add: length_delimiter)
      show ?thesis using 1(1)[OF s e nxt] s' e' by (subst scan_end_of.simps) simp
    qed
  qed
qed



lemmas extractor_eval =
  findDisplayMathInCalloutBlock_def find_loop.simps index_of_rec delimiter_def js_def
  region_at_def clean_math_def slice_def trim_def is_space_def is_line_terminator_def
  strip_quote_def




text \<open>The accumulator of the loop only grows at its end.\<close>

lemma find_loop_acc:
  "find_loop blockText l0 o0 i (acc0 @ results) = acc0 @ find_loop blockText l0 o0 i results"
proof (induction blockText l0 o0 i results rule: find_loop.induct)
  case (1 blockText l0 o0 i results)
  show ?case
  proof (cases "index_of blockText delimiter i")
    case None
    then show ?thesis by (simp add: find_loop.simps[of blockText l0 o0 i])
  next
    case (Some startDelim)
    note s = this
    show ?thesis
    proof (cases "index_of blockText delimiter (startDelim + length delimiter)")
      case None
      then show ?thesis using s by (simp add: find_loop.simps[of blockText l0 o0 i])
    next
      case (Some endDelim)
      from 1[OF s Some] show ?thesis
        using s Some by (simp add: find_loop.simps[of blockText l0 o0 i])
    qed
  qed
qed

lemma find_loop_complete:
  "scan_end_of blockText i = Unterminated sd \<Longrightarrow>
   (\<forall>r\<in>set (find_loop blockText l0 o0 i []). o0 + i \<le> startOffset r \<and> endOffset r \<le> o0 + sd) \<and>
   sorted_wrt (\<lambda>a b. endOffset a \<le> startOffset b) (find_loop blockText l0 o0 i []) \<and>
   (\<forall>k. i \<le> k \<and> k < sd \<and> occurs_at blockText delimiter k \<longrightarrow>
        (\<exists>r\<in>set (find_loop blockText l0 o0 i []). startOffset r \<le> o0 + k \<and> o0 + k < endOffset r))"
proof (induction blockText i rule: scan_end_of.induct)
  case (1 blockText i)
  show ?case
  proof (cases "index_of blockText delimiter i")
    case None
    then show ?thesis using 1(2) by (subst (asm) scan_end_of.simps) simp
  next
    case (Some startDelim)
    note s = this
    show ?thesis
    proof (cases "index_of blockText delimiter (startDelim + length delimiter)")
      case None
      then have sd: "sd = startDelim" using 1(2) s by (subst (asm) scan_end_of.simps) simp
      have f: "find_loop blockText l0 o0 i [] = []"
        using s None by (subst find_loop.simps) simp
      have "\<not> occurs_at blockText delimiter k" if "i \<le> k" "k < sd" for k
        using s that sd by (simp add: index_of_Some)
      then show ?thesis unfolding f by auto
    next
      case (Some endDelim)
      note e = this
      let ?r = "region_at blockText l0 o0 startDelim endDelim"
      let ?F = "find_loop blockText l0 o0 (endDelim + length delimiter) []"
      have nxt: "scan_end_of blockText (endDelim + length delimiter) = Unterminated sd"
        using 1(2) s e by (subst (asm) scan_end_of.simps) simp
      from 1(1)[OF s e nxt]
      have IH1: "\<forall>r\<in>set ?F. o0 + (endDelim + 2) \<le> startOffset r \<and> endOffset r \<le> o0 + sd"
        and IH2: "sorted_wrt (\<lambda>a b. endOffset a \<le> startOffset b) ?F"
        and IH3: "\<forall>k. endDelim + 2 \<le> k \<and> k < sd \<and> occurs_at blockText delimiter k \<longrightarrow>
                   (\<exists>r\<in>set ?F. startOffset r \<le> o0 + k \<and> o0 + k < endOffset r)"
        by (simp_all add: length_delimiter)
      have f: "find_loop blockText l0 o0 i [] = ?r # ?F"
      proof -
        have "find_loop blockText l0 o0 i [] =
              find_loop blockText l0 o0 (endDelim + length delimiter) ([?r] @ [])"
          using s e by (subst find_loop.simps) simp
        also have "\<dots> = [?r] @ ?F" by (rule find_loop_acc)
        finally show ?thesis by simp
      qed
      have ro: "startOffset ?r = o0 + startDelim" "endOffset ?r = o0 + (endDelim + 2)"
        by (simp_all add: region_at_def length_delimiter)
      have b: "i \<le> startDelim" "startDelim + 2 \<le> endDelim"
        using index_of_bounds(1)[OF s] index_of_bounds(1)[OF e] by (simp_all add: length_delimiter)
      from scan_end_unterminated[OF nxt] have le: "endDelim + 2 \<le> sd"
        by (simp add: length_delimiter)
      have n1: "\<not> occurs_at blockText delimiter k" if "i \<le> k" "k < startDelim" for k
        using s that by (simp add: index_of_Some)
      have n2: "\<not> occurs_at blockText delimiter k" if "startDelim + 2 \<le> k" "k < endDelim" for k
        using e that by (simp add: index_of_Some length_delimiter)
      have A: "\<forall>r\<in>set (?r # ?F). o0 + i \<le> startOffset r \<and> endOffset r \<le> o0 + sd"
        using IH1 ro b le by auto
      have B: "sorted_wrt (\<lambda>a b. endOffset a \<le> startOffset b) (?r # ?F)"
        using IH1 IH2 ro by auto
      have C: "\<exists>r\<in>set (?r # ?F). startOffset r \<le> o0 + k \<and> o0 + k < endOffset r"
        if k: "i \<le> k" "k < sd" "occurs_at blockText delimiter k" for k
      proof (cases "k < endDelim + 2")
        case True
        have "startDelim \<le> k" using n1[of k] k by (meson not_less)
        then have "startOffset ?r \<le> o0 + k \<and> o0 + k < endOffset ?r"
          using True ro by simp
        then show ?thesis by simp
      next
        case False
        then have "endDelim + 2 \<le> k" by simp
        with IH3 k obtain r where "r \<in> set ?F" "startOffset r \<le> o0 + k \<and> o0 + k < endOffset r"
          by blast
        then show ?thesis by auto
      qed
      show ?thesis unfolding f using A B C by blast
    qed
  qed
qed

text \<open>
  Claim C5.  The extractor is a total function: its loop terminates on every text, and
  no operation in it can throw, so its result is always a list of regions.  When the
  loop is left by its \<open>break\<close>, at an opening delimiter at \<open>sd\<close> with no closing delimiter
  after it, the result holds exactly the regions matched before \<open>sd\<close>: every region
  returned is a matched pair of delimiters of the text, recorded as the extractor
  records it, and ends at or before \<open>sd\<close>; the regions come in the order of the text and
  do not overlap; every delimiter before \<open>sd\<close> lies in one of the regions returned, so no
  matched pair is lost; the result is the one of the text cut at \<open>sd\<close>, in which the scan
  runs to the end; and nothing is recorded for the text from \<open>sd\<close> on.
\<close>

theorem unterminated_delimiter_keeps_matched_regions:
  assumes "scan_end_of blockText 0 = Unterminated sd"
  shows "occurs_at blockText delimiter sd \<and>
         (\<forall>k. sd + 2 \<le> k \<longrightarrow> \<not> occurs_at blockText delimiter k) \<and>
         (\<forall>r\<in>set (findDisplayMathInCalloutBlock blockText blockStartLine blockStartOffset).
            region_ok blockText blockStartLine blockStartOffset r \<and>
            endOffset r \<le> blockStartOffset + sd) \<and>
         sorted_wrt (\<lambda>a b. endOffset a \<le> startOffset b)
           (findDisplayMathInCalloutBlock blockText blockStartLine blockStartOffset) \<and>
         (\<forall>k. k < sd \<and> occurs_at blockText delimiter k \<longrightarrow>
            (\<exists>r\<in>set (findDisplayMathInCalloutBlock blockText blockStartLine blockStartOffset).
               startOffset r \<le> blockStartOffset + k \<and> blockStartOffset + k < endOffset r)) \<and>
         findDisplayMathInCalloutBlock blockText blockStartLine blockStartOffset =
           findDisplayMathInCalloutBlock (take sd blockText) blockStartLine blockStartOffset \<and>
         scan_end_of (take sd blockText) 0 = Exhausted"
proof -
  let ?rs = "findDisplayMathInCalloutBlock blockText blockStartLine blockStartOffset"
  have eq: "?rs = findDisplayMathInCalloutBlock (take sd blockText) blockStartLine blockStartOffset"
    unfolding findDisplayMathInCalloutBlock_def by (rule find_loop_truncate[OF assms])
  from find_loop_complete[OF assms, of blockStartLine blockStartOffset]
  have c1: "\<forall>r\<in>set ?rs. endOffset r \<le> blockStartOffset + sd"
    and c2: "sorted_wrt (\<lambda>a b. endOffset a \<le> startOffset b) ?rs"
    and c3: "\<forall>k. k < sd \<and> occurs_at blockText delimiter k \<longrightarrow>
            (\<exists>r\<in>set ?rs. startOffset r \<le> blockStartOffset + k \<and> blockStartOffset + k < endOffset r)"
    unfolding findDisplayMathInCalloutBlock_def by simp_all
  have ok: "\<forall>r\<in>set ?rs. region_ok blockText blockStartLine blockStartOffset r"
    using find_loop_regions_ok[of "[]" blockText blockStartLine blockStartOffset 0]
    unfolding findDisplayMathInCalloutBlock_def by simp
  from scan_end_unterminated[OF assms]
  have u: "occurs_at blockText delimiter sd"
    "\<forall>k. sd + 2 \<le> k \<longrightarrow> \<not> occurs_at blockText delimiter k" by simp_all
  from u ok c1 c2 c3 eq scan_end_truncate[OF assms] show ?thesis
    by (intro conjI ballI) auto
qed

theorem unterminated_delimiter_keeps_matched_regions_witness:
  "scan_end_of (js ''$$a$$ $$b$$ $$c'') 0 = Unterminated 12 \<and>
   findDisplayMathInCalloutBlock (js ''$$a$$ $$b$$ $$c'') 3 40 =
     [\<lparr> lineStart = 3, lineEnd = 3, startOffset = 40, endOffset = 45, mathText = js ''a'' \<rparr>,
      \<lparr> lineStart = 3, lineEnd = 3, startOffset = 46, endOffset = 51, mathText = js ''b'' \<rparr>] \<and>
   findDisplayMathInCalloutBlock (js ''$$a$$ $$b$$ $$c'') 3 40 =
     findDisplayMathInCalloutBlock (js ''$$a$$ $$b$$ '') 3 40 \<and>
   occurs_at (js ''$$a$$ $$b$$ $$c'') delimiter 9 \<and>
   (\<exists>r\<in>set (findDisplayMathInCalloutBlock (js ''$$a$$ $$b$$ $$c'') 3 40).
      startOffset r \<le> 40 + 9 \<and> 40 + 9 < endOffset r)"
proof -
  have u: "scan_end_of (js ''$$a$$ $$b$$ $$c'') 0 = Unterminated 12"
    by (simp add: scan_end_of.simps index_of_rec delimiter_def js_def)
  have t: "take 12 (js ''$$a$$ $$b$$ $$c'') = js ''$$a$$ $$b$$ ''"
    by (simp add: js_def)
  have o: "occurs_at (js ''$$a$$ $$b$$ $$c'') delimiter 9"
    by (simp add: occurs_at_def delimiter_def js_def)
  have ev: "findDisplayMathInCalloutBlock (js ''$$a$$ $$b$$ $$c'') 3 40 =
     [\<lparr> lineStart = 3, lineEnd = 3, startOffset = 40, endOffset = 45, mathText = js ''a'' \<rparr>,
      \<lparr> lineStart = 3, lineEnd = 3, startOffset = 46, endOffset = 51, mathText = js ''b'' \<rparr>]"
    by (simp add: extractor_eval)
  from unterminated_delimiter_keeps_matched_regions[OF u, of 3 40]
  have c: "\<forall>k. k < 12 \<and> occurs_at (js ''$$a$$ $$b$$ $$c'') delimiter k \<longrightarrow>
            (\<exists>r\<in>set (findDisplayMathInCalloutBlock (js ''$$a$$ $$b$$ $$c'') 3 40).
               startOffset r \<le> 40 + k \<and> 40 + k < endOffset r)"
    and q: "findDisplayMathInCalloutBlock (js ''$$a$$ $$b$$ $$c'') 3 40 =
           findDisplayMathInCalloutBlock (take 12 (js ''$$a$$ $$b$$ $$c'')) 3 40"
    by blast+
  from c[rule_format, of 9] o
  have "\<exists>r\<in>set (findDisplayMathInCalloutBlock (js ''$$a$$ $$b$$ $$c'') 3 40).
      startOffset r \<le> 40 + 9 \<and> 40 + 9 < endOffset r" by simp
  with u ev q[unfolded t] o show ?thesis by blast
qed

section \<open>Properties of the block pass\<close>

lemma apply_writes_append: "apply_writes t (xs @ ys) = apply_writes (apply_writes t xs) ys"
  by (simp add: apply_writes_def)

lemma nested_fold:
  "foldl (add_nested_equation H) (blocks, n) eqs =
     (apply_writes blocks
        (map (\<lambda>i. (int (lineStart (eqs ! i)), nested_equation_block H (eqs ! i) (n + i))) [0 ..< length eqs]),
      n + length eqs)"
proof (induction eqs arbitrary: blocks n rule: rev_induct)
  case Nil
  then show ?case by (simp add: apply_writes_def)
next
  case (snoc eq eqs)
  have m: "map (\<lambda>i. (int (lineStart ((eqs @ [eq]) ! i)), nested_equation_block H ((eqs @ [eq]) ! i) (n + i)))
             [0 ..< length eqs] =
           map (\<lambda>i. (int (lineStart (eqs ! i)), nested_equation_block H (eqs ! i) (n + i))) [0 ..< length eqs]"
    by (simp add: nth_append)
  show ?case
    using snoc.IH[of blocks n]
    by (simp add: add_nested_equation_def apply_writes_def m)
qed

lemma block_step_writes:
  "block_step H lines markdown excludeExample (blocks, n) block =
     (apply_writes blocks (step_writes H lines markdown excludeExample n block),
      n + length (step_writes H lines markdown excludeExample n block))"
  by (simp add: block_step_def step_writes_def block_start_line_def nested_fold Let_def
      apply_writes_def split: option.splits)

lemma build_blocks_from:
  "foldl (block_step H lines markdown excludeExample) (blocks, n) metasections =
     (apply_writes blocks (all_writes H lines markdown excludeExample n metasections),
      n + length (all_writes H lines markdown excludeExample n metasections))"
proof (induction metasections arbitrary: blocks n)
  case Nil
  then show ?case by (simp add: apply_writes_def)
next
  case (Cons block rest)
  show ?case
    by (simp add: block_step_writes Cons.IH apply_writes_append Let_def add.assoc)
qed

lemma build_blocks_writes:
  "build_blocks H lines markdown excludeExample metasections =
     (apply_writes [] (all_writes H lines markdown excludeExample 1 metasections),
      1 + length (all_writes H lines markdown excludeExample 1 metasections))"
  by (simp add: build_blocks_def build_blocks_from)

lemma b_ordinal_blocks [simp]:
  "b_ordinal (equation_block H markdown block n) = n"
  "b_ordinal (nested_equation_block H eq n) = n"
  "b_ordinal (theorem_block H lines block settings n) = n"
  "b_ordinal (generic_block block n) = n"
  by (simp_all add: equation_block_def nested_equation_block_def theorem_block_def
      generic_block_def Let_def)

lemma step_writes_ordinals:
  "map (\<lambda>w. b_ordinal (snd w)) (step_writes H lines markdown excludeExample n block) =
     [n ..< n + length (step_writes H lines markdown excludeExample n block)]"
proof -
  have "map (\<lambda>i. n + i) [0 ..< m] = [n ..< n + m]" for m
    by (induction m) simp_all
  then show ?thesis
    by (simp add: step_writes_def Let_def comp_def split: option.splits)
qed

lemma all_writes_ordinals:
  "map (\<lambda>w. b_ordinal (snd w)) (all_writes H lines markdown excludeExample n metasections) =
     [n ..< n + length (all_writes H lines markdown excludeExample n metasections)]"
proof (induction metasections arbitrary: n)
  case Nil
  then show ?case by simp
next
  case (Cons block rest)
  let ?ws = "step_writes H lines markdown excludeExample n block"
  let ?rs = "all_writes H lines markdown excludeExample (n + length ?ws) rest"
  have "[n ..< n + length ?ws + length ?rs] = [n ..< n + length ?ws] @ [n + length ?ws ..< n + length ?ws + length ?rs]"
    by (metis le_add1 upt_add_eq_append)
  then show ?case using Cons.IH[of "n + length ?ws"] step_writes_ordinals[of H lines markdown excludeExample n block]
    by (simp add: Let_def add.assoc)
qed
lemma map_of_bt_set: "map_of (bt_set k v t) = (map_of t)(k \<mapsto> v)"
  by (induction t) (auto simp: fun_upd_twist)

lemma keys_bt_set: "fst ` set (bt_set k v t) = insert k (fst ` set t)"
proof (induction t)
  case Nil
  then show ?case by simp
next
  case (Cons p t)
  then show ?case by (cases p) (simp add: insert_commute)
qed

lemma bt_sorted_set: "bt_sorted t \<Longrightarrow> bt_sorted (bt_set k v t)"
proof (induction t)
  case Nil
  then show ?case by (simp add: bt_sorted_def)
next
  case (Cons p t)
  obtain k' v' where p: "p = (k', v')" by (cases p)
  from Cons.prems have st: "bt_sorted t" and lt: "\<forall>x\<in>fst ` set t. k' < x"
    by (auto simp: bt_sorted_def p)
  show ?case
  proof (cases "k < k'")
    case True
    then show ?thesis using Cons.prems lt by (auto simp: bt_sorted_def p)
  next
    case False
    show ?thesis
    proof (cases "k = k'")
      case True
      then show ?thesis using Cons.prems by (simp add: bt_sorted_def p)
    next
      case False
      with \<open>\<not> k < k'\<close> have "k' < k" by simp
      have "\<forall>x\<in>fst ` set (bt_set k v t). k' < x"
        using lt \<open>k' < k\<close> by (simp add: keys_bt_set)
      then show ?thesis using Cons.IH[OF st] False \<open>\<not> k < k'\<close>
        by (auto simp: bt_sorted_def p)
    qed
  qed
qed

lemma bt_sorted_distinct: "bt_sorted t \<Longrightarrow> distinct (map fst t)"
  unfolding bt_sorted_def by (simp add: strict_sorted_iff)

lemma bt_sorted_member: "bt_sorted t \<Longrightarrow> (k, v) \<in> set t \<longleftrightarrow> map_of t k = Some v"
  by (simp add: bt_sorted_distinct)

lemma bt_sorted_apply_writes: "bt_sorted t \<Longrightarrow> bt_sorted (apply_writes t ws)"
  by (induction ws arbitrary: t) (simp_all add: apply_writes_def bt_sorted_set)

lemma apply_writes_snoc: "apply_writes t (ws @ [w]) = bt_set (fst w) (snd w) (apply_writes t ws)"
  by (simp add: apply_writes_def)

lemma apply_writes_last:
  "j < length ws \<Longrightarrow> \<forall>j'. j < j' \<and> j' < length ws \<longrightarrow> fst (ws ! j') \<noteq> fst (ws ! j) \<Longrightarrow>
   map_of (apply_writes t ws) (fst (ws ! j)) = Some (snd (ws ! j))"
proof (induction ws rule: rev_induct)
  case Nil
  then show ?case by simp
next
  case (snoc w ws)
  show ?case
  proof (cases "j = length ws")
    case True
    then show ?thesis by (simp add: apply_writes_snoc map_of_bt_set)
  next
    case False
    with snoc.prems(1) have j: "j < length ws" by simp
    have "fst w \<noteq> fst (ws ! j)"
      using snoc.prems(2)[rule_format, of "length ws"] j by (simp add: nth_append)
    moreover have "\<forall>j'. j < j' \<and> j' < length ws \<longrightarrow> fst (ws ! j') \<noteq> fst (ws ! j)"
    proof (intro allI impI)
      fix j' assume a: "j < j' \<and> j' < length ws"
      then show "fst (ws ! j') \<noteq> fst (ws ! j)"
        using snoc.prems(2)[rule_format, of j'] j by (simp add: nth_append)
    qed
    ultimately show ?thesis using snoc.IH[OF j] j
      by (simp add: apply_writes_snoc map_of_bt_set nth_append)
  qed
qed

lemma apply_writes_entry:
  assumes "e \<in> set (apply_writes [] ws)"
  shows "\<exists>j<length ws. ws ! j = e \<and> (\<forall>j'. j < j' \<and> j' < length ws \<longrightarrow> fst (ws ! j') \<noteq> fst e)"
  using assms
proof (induction ws arbitrary: e rule: rev_induct)
  case Nil
  then show ?case by (simp add: apply_writes_def)
next
  case (snoc w ws)
  have so: "bt_sorted (apply_writes [] ws)" "bt_sorted (apply_writes [] (ws @ [w]))"
    by (rule bt_sorted_apply_writes, simp add: bt_sorted_def)+
  obtain k v where e: "e = (k, v)" by (cases e)
  from snoc.prems have m: "map_of (apply_writes [] (ws @ [w])) k = Some v"
    using bt_sorted_member[OF so(2)] e by simp
  show ?case
  proof (cases "k = fst w")
    case True
    with m have "v = snd w" by (simp add: apply_writes_snoc map_of_bt_set)
    with True e have "(ws @ [w]) ! length ws = e" by simp
    then show ?thesis by (intro exI[of _ "length ws"]) simp
  next
    case False
    with m have "map_of (apply_writes [] ws) k = Some v"
      by (simp add: apply_writes_snoc map_of_bt_set)
    then have "e \<in> set (apply_writes [] ws)" using bt_sorted_member[OF so(1)] e by simp
    from snoc.IH[OF this] obtain j where j: "j < length ws" "ws ! j = e"
      "\<forall>j'. j < j' \<and> j' < length ws \<longrightarrow> fst (ws ! j') \<noteq> fst e" by blast
    have "\<forall>j'. j < j' \<and> j' < length (ws @ [w]) \<longrightarrow> fst ((ws @ [w]) ! j') \<noteq> fst e"
    proof (intro allI impI)
      fix j' assume a: "j < j' \<and> j' < length (ws @ [w])"
      show "fst ((ws @ [w]) ! j') \<noteq> fst e"
      proof (cases "j' = length ws")
        case True
        then show ?thesis using False e by simp
      next
        case False
        with a have "j' < length ws" by simp
        then show ?thesis using j(3) a by (simp add: nth_append)
      qed
    qed
    with j(1,2) show ?thesis by (intro exI[of _ j]) (simp add: nth_append)
  qed
qed

lemma step_writes_keys:
  "\<forall>w\<in>set (step_writes H lines markdown excludeExample n block). fst w = b_start (snd w)"
  by (auto simp: step_writes_def block_start_line_def equation_block_def nested_equation_block_def
      theorem_block_def generic_block_def Let_def split: option.splits)

lemma all_writes_keys:
  "\<forall>w\<in>set (all_writes H lines markdown excludeExample n metasections). fst w = b_start (snd w)"
proof (induction metasections arbitrary: n)
  case Nil
  then show ?case by simp
next
  case (Cons block rest)
  then show ?case using step_writes_keys[of H lines markdown excludeExample n block]
    by (auto simp: Let_def)
qed

lemma type_tags: "js ''callout'' \<noteq> js ''heading''" "js ''callout'' \<noteq> js ''math''"
  by (simp_all add: js_def)

lemma ex_lines: "split_nl example_callout_text =
    [js ''> [!theorem]'', js ''> $$'', js ''> x = 1'', js ''> $$'']"
  by (simp add: example_callout_text_def js_def)

lemma ex_eqs: "findDisplayMathInCalloutBlock example_callout_text 0 0 =
      [\<lparr> lineStart = 1, lineEnd = 3, startOffset = 15, endOffset = 30, mathText = js ''x = 1'' \<rparr>]"
  by (simp add: example_callout_text_def extractor_eval)

lemma ex_text: "getBlockText example_callout_text example_callout_cache = example_callout_text"
  by (simp add: getBlockText_def example_callout_cache_def slice_def example_callout_text_def js_def)

lemma ex_settings:
  "readTheoremCalloutSettings example_helpers
     (at_index (split_nl example_callout_text) (block_start_line example_callout_cache)) False = Some ()"
  unfolding ex_lines
  by (simp add: example_helpers_def at_index_def block_start_line_def example_callout_cache_def js_def)

text \<open>
  Claim C1 fails as stated: the loop over the nested equations runs before the callout's
  own block is stored, so the nested equations take their ordinals first.  For a document
  that is one theorem callout with one display math region, the equation (keyed by line
  1) has ordinal 1 and the callout (keyed by line 0) has ordinal 2.
\<close>

theorem callout_ordinals_counterexample:
  "map (\<lambda>e. (fst e, b_ordinal (snd e), isTheoremCalloutBlock (snd e), isEquationBlock (snd e)))
     (fst (build_blocks example_helpers (split_nl example_callout_text) example_callout_text False
        [example_callout_cache])) =
   [(0, 2, True, False), (1, 1, False, True)]"
proof -
  have c: "sc_type example_callout_cache = js ''callout''"
    by (simp add: example_callout_cache_def)
  have s: "block_start_line example_callout_cache = 0"
    "loc_line (pos_start (sc_position example_callout_cache)) = 0"
    "loc_offset (pos_start (sc_position example_callout_cache)) = 0"
    by (simp_all add: block_start_line_def example_callout_cache_def)
  show ?thesis
    using ex_settings
    by (simp add: build_blocks_def block_step_def c s type_tags ex_text ex_eqs Let_def
        add_nested_equation_def isTheoremCalloutBlock_def isEquationBlock_def
        theorem_block_def nested_equation_block_def)
qed

text \<open>
  Claim C1, as amended.  In the round of the loop for a callout whose first line parses
  as theorem callout settings, with \<open>eqs\<close> the display math regions found in its text and
  \<open>n\<close> the counter at the start of the round: the nested equation blocks are stored
  first, in the order of their appearance, the \<open>i\<close>-th with ordinal \<open>n + i\<close>; then the
  callout is stored with the next ordinal \<open>n + length eqs\<close>, above the ordinal of each of
  its equations; the round leaves the counter at \<open>n + length eqs + 1\<close> for the next
  block of the outline.
\<close>

theorem callout_ordinals:
  assumes "sc_type block = js ''callout''"
    and "readTheoremCalloutSettings H (at_index lines (block_start_line block)) excludeExample
           = Some settings"
    and "eqs = findDisplayMathInCalloutBlock (getBlockText markdown block)
                 (block_start_line block) (loc_offset (pos_start (sc_position block)))"
  shows "block_step H lines markdown excludeExample (blocks, n) block =
           (bt_set (int (block_start_line block))
              (theorem_block H lines block settings (n + length eqs))
              (apply_writes blocks
                 (map (\<lambda>i. (int (lineStart (eqs ! i)), nested_equation_block H (eqs ! i) (n + i)))
                    [0 ..< length eqs])),
            n + length eqs + 1) \<and>
         (\<forall>i<length eqs.
            b_ordinal (nested_equation_block H (eqs ! i) (n + i) :: ('s, 'l) block) = n + i \<and>
            n + i < b_ordinal (theorem_block H lines block settings (n + length eqs) :: ('s, 'l) block)) \<and>
         b_ordinal (theorem_block H lines block settings (n + length eqs) :: ('s, 'l) block)
           = n + length eqs"
proof -
  have "step_writes H lines markdown excludeExample n block =
          map (\<lambda>i. (int (lineStart (eqs ! i)), nested_equation_block H (eqs ! i) (n + i)))
            [0 ..< length eqs]
          @ [(int (block_start_line block), theorem_block H lines block settings (n + length eqs))]"
    using assms type_tags by (simp add: step_writes_def Let_def)
  then show ?thesis
    by (simp add: block_step_writes apply_writes_append) (simp add: apply_writes_def)
qed

theorem callout_ordinals_witness:
  "sc_type example_callout_cache = js ''callout'' \<and>
   readTheoremCalloutSettings example_helpers
     (at_index (split_nl example_callout_text) (block_start_line example_callout_cache)) False = Some () \<and>
   length (findDisplayMathInCalloutBlock (getBlockText example_callout_text example_callout_cache)
             (block_start_line example_callout_cache)
             (loc_offset (pos_start (sc_position example_callout_cache)))) = 1 \<and>
   snd (block_step example_helpers (split_nl example_callout_text) example_callout_text False
          ([], 1) example_callout_cache) = 3 \<and>
   map (\<lambda>e. (fst e, b_ordinal (snd e)))
     (fst (block_step example_helpers (split_nl example_callout_text) example_callout_text False
          ([], 1) example_callout_cache)) = [(0, 2), (1, 1)]"
proof -
  have c: "sc_type example_callout_cache = js ''callout''"
    by (simp add: example_callout_cache_def)
  have s: "block_start_line example_callout_cache = 0"
    "loc_offset (pos_start (sc_position example_callout_cache)) = 0"
    by (simp_all add: block_start_line_def example_callout_cache_def)
  have e: "findDisplayMathInCalloutBlock (getBlockText example_callout_text example_callout_cache)
             (block_start_line example_callout_cache)
             (loc_offset (pos_start (sc_position example_callout_cache))) =
      [\<lparr> lineStart = 1, lineEnd = 3, startOffset = 15, endOffset = 30, mathText = js ''x = 1'' \<rparr>]"
    by (simp add: ex_text s ex_eqs)
  from callout_ordinals[OF c ex_settings e[symmetric], of "[]" 1]
  show ?thesis using c ex_settings e
    by (simp add: apply_writes_def s theorem_block_def nested_equation_block_def Let_def)
qed

text \<open>
  Claim C10.  Let \<open>ws\<close> be the calls of \<open>blocks.set\<close> made by the block pass, in order.
  The block index is the result of these calls on the empty map; each call is keyed by
  the start line of its block and consumes one ordinal, from 1 on.  The last call for a
  key decides what the index holds at that key, and when two calls have the same key,
  no block of the index has the ordinal of the earlier one.
\<close>

theorem block_index_last_writer_wins:
  assumes "ws = all_writes H lines markdown excludeExample 1 metasections"
    and "index = fst (build_blocks H lines markdown excludeExample metasections)"
  shows "index = apply_writes [] ws \<and>
         (\<forall>w\<in>set ws. fst w = b_start (snd w)) \<and>
         map (\<lambda>w. b_ordinal (snd w)) ws = [1 ..< 1 + length ws] \<and>
         (\<forall>j<length ws. (\<forall>j'. j < j' \<and> j' < length ws \<longrightarrow> fst (ws ! j') \<noteq> fst (ws ! j))
            \<longrightarrow> bt_get (fst (ws ! j)) index = Some (snd (ws ! j))) \<and>
         (\<forall>i j. i < j \<and> j < length ws \<and> fst (ws ! i) = fst (ws ! j)
            \<longrightarrow> (\<forall>e\<in>set index. b_ordinal (snd e) \<noteq> b_ordinal (snd (ws ! i))))"
proof -
  have idx: "index = apply_writes [] ws"
    using assms by (simp add: build_blocks_writes)
  have ords: "map (\<lambda>w. b_ordinal (snd w)) ws = [1 ..< 1 + length ws]"
    using all_writes_ordinals[of H lines markdown excludeExample 1 metasections] assms(1) by simp
  have ord: "b_ordinal (snd (ws ! j)) = 1 + j" if "j < length ws" for j
  proof -
    have "map (\<lambda>w. b_ordinal (snd w)) ws ! j = [1 ..< 1 + length ws] ! j"
      using ords by (rule arg_cong)
    moreover have "[1 ..< 1 + length ws] ! j = 1 + j"
      using that by (intro nth_upt) simp
    ultimately show ?thesis using that by simp
  qed
  have dropped: "b_ordinal (snd e) \<noteq> b_ordinal (snd (ws ! i))"
    if "i < j" "j < length ws" "fst (ws ! i) = fst (ws ! j)" "e \<in> set index" for i j e
  proof
    assume eq: "b_ordinal (snd e) = b_ordinal (snd (ws ! i))"
    from apply_writes_entry[of e ws] that(4) idx
    obtain j0 where j0: "j0 < length ws" "ws ! j0 = e"
      "\<forall>j'. j0 < j' \<and> j' < length ws \<longrightarrow> fst (ws ! j') \<noteq> fst e" by blast
    from eq j0(1,2) that(1,2) ord[of j0] ord[of i] have "j0 = i" by simp
    with j0(2,3) that(1,2,3) show False by auto
  qed
  show ?thesis
  proof (intro conjI)
    show "index = apply_writes [] ws" by (fact idx)
    show "\<forall>w\<in>set ws. fst w = b_start (snd w)"
      using all_writes_keys[of H lines markdown excludeExample 1 metasections] assms(1) by simp
    show "map (\<lambda>w. b_ordinal (snd w)) ws = [1 ..< 1 + length ws]" by (fact ords)
    show "\<forall>j<length ws. (\<forall>j'. j < j' \<and> j' < length ws \<longrightarrow> fst (ws ! j') \<noteq> fst (ws ! j))
            \<longrightarrow> bt_get (fst (ws ! j)) index = Some (snd (ws ! j))"
      unfolding bt_get_def idx using apply_writes_last[of _ ws "[]"] by simp
    show "\<forall>i j. i < j \<and> j < length ws \<and> fst (ws ! i) = fst (ws ! j)
            \<longrightarrow> (\<forall>e\<in>set index. b_ordinal (snd e) \<noteq> b_ordinal (snd (ws ! i)))"
      using dropped by blast
  qed
qed

theorem block_index_last_writer_wins_witness:
  "map (\<lambda>w. (fst w, b_ordinal (snd w)))
     (all_writes example_helpers (split_nl example_crowded_text) example_crowded_text False 1
        [example_crowded_cache] :: (int \<times> (unit, jsstring) block) list) = [(1, 1), (1, 2), (0, 3)] \<and>
   map (\<lambda>e. (fst e, b_ordinal (snd e)))
     (fst (build_blocks example_helpers (split_nl example_crowded_text) example_crowded_text False
        [example_crowded_cache]) :: (unit, jsstring) block btree) = [(0, 3), (1, 2)] \<and>
   1 \<notin> set (map (\<lambda>e. b_ordinal (snd e))
     (fst (build_blocks example_helpers (split_nl example_crowded_text) example_crowded_text
        False [example_crowded_cache]) :: (unit, jsstring) block btree))"
proof -
  let ?ws = "all_writes example_helpers (split_nl example_crowded_text) example_crowded_text False 1
        [example_crowded_cache] :: (int \<times> (unit, jsstring) block) list"
  let ?index = "fst (build_blocks example_helpers (split_nl example_crowded_text) example_crowded_text
        False [example_crowded_cache]) :: (unit, jsstring) block btree"
  have l: "split_nl example_crowded_text = [js ''> [!theorem]'', js ''> $$a$$ $$b$$'']"
    by (simp add: example_crowded_text_def js_def)
  have t: "getBlockText example_crowded_text example_crowded_cache = example_crowded_text"
    by (simp add: getBlockText_def example_crowded_cache_def slice_def example_crowded_text_def js_def)
  have q: "findDisplayMathInCalloutBlock example_crowded_text 0 0 =
      [\<lparr> lineStart = 1, lineEnd = 1, startOffset = 15, endOffset = 20, mathText = js ''a'' \<rparr>,
       \<lparr> lineStart = 1, lineEnd = 1, startOffset = 21, endOffset = 26, mathText = js ''b'' \<rparr>]"
    by (simp add: example_crowded_text_def extractor_eval)
  have c: "sc_type example_crowded_cache = js ''callout''"
    by (simp add: example_crowded_cache_def)
  have s: "block_start_line example_crowded_cache = 0"
    "loc_offset (pos_start (sc_position example_crowded_cache)) = 0"
    by (simp_all add: block_start_line_def example_crowded_cache_def)
  have r: "readTheoremCalloutSettings example_helpers (at_index (split_nl example_crowded_text) 0) False
      = Some ()"
    unfolding l by (simp add: example_helpers_def at_index_def js_def)
  have ws: "?ws =
      [(1, nested_equation_block example_helpers
             \<lparr> lineStart = 1, lineEnd = 1, startOffset = 15, endOffset = 20, mathText = js ''a'' \<rparr> 1),
       (1, nested_equation_block example_helpers
             \<lparr> lineStart = 1, lineEnd = 1, startOffset = 21, endOffset = 26, mathText = js ''b'' \<rparr> 2),
       (0, theorem_block example_helpers (split_nl example_crowded_text) example_crowded_cache () 3)]"
    by (simp add: step_writes_def c s r t q type_tags Let_def upt_rec numeral_2_eq_2 numeral_3_eq_3)
  from block_index_last_writer_wins[OF refl refl, of example_helpers "split_nl example_crowded_text"
      example_crowded_text False "[example_crowded_cache]"]
  have idx: "?index = apply_writes [] ?ws"
    and dropped: "\<forall>i j. i < j \<and> j < length ?ws \<and> fst (?ws ! i) = fst (?ws ! j)
            \<longrightarrow> (\<forall>e\<in>set ?index. b_ordinal (snd e) \<noteq> b_ordinal (snd (?ws ! i)))"
    by blast+
  have d: "\<forall>e\<in>set ?index. b_ordinal (snd e) \<noteq> 1"
    using dropped[rule_format, of 0 1] unfolding ws by simp
  have i: "map (\<lambda>e. (fst e, b_ordinal (snd e))) ?index = [(0, 3), (1, 2)]"
    unfolding idx ws by (simp add: apply_writes_def)
  have w: "map (\<lambda>w. (fst w, b_ordinal (snd w))) ?ws = [(1, 1), (1, 2), (0, 3)]"
    unfolding ws by simp
  from d have d': "1 \<notin> set (map (\<lambda>e. b_ordinal (snd e)) ?index)" by auto
  show ?thesis using d' i w by blast
qed

section \<open>Properties of the section builder\<close>

lemma bt_set_append: "\<forall>e\<in>set t. fst e < k \<Longrightarrow> bt_set k v t = t @ [(k, v)]"
proof (induction t)
  case Nil
  then show ?case by simp
next
  case (Cons p t)
  then show ?case by (cases p) auto
qed

lemma heading_sections_entries:
  "sorted_wrt (<) (map heading_line hs) \<Longrightarrow>
   \<forall>e\<in>set t. \<forall>h\<in>set hs. fst e < int (heading_line h) \<Longrightarrow>
   heading_sections n hs index t = t @ heading_entries n hs index"
proof (induction hs arbitrary: t index)
  case Nil
  then show ?case by simp
next
  case (Cons h rest)
  let ?v = "\<lparr> s_ordinal = index + 1, s_title = hc_heading h, s_level = hc_level h,
        s_start = int (heading_line h),
        s_end = (case rest of [] \<Rightarrow> int n - 1 | h' # _ \<Rightarrow> int (heading_line h') - 1),
        s_blocks = [], s_links = [] \<rparr> :: 'a markdown_section"
  have a: "bt_set (int (heading_line h)) ?v t = t @ [(int (heading_line h), ?v)]"
    using Cons.prems(2) by (intro bt_set_append) simp
  have s: "sorted_wrt (<) (map heading_line rest)" using Cons.prems(1) by simp
  have b: "\<forall>e\<in>set (t @ [(int (heading_line h), ?v)]). \<forall>h'\<in>set rest. fst e < int (heading_line h')"
    using Cons.prems by auto
  show ?case
    using Cons.IH[OF s b, of "index + 1"] a by (simp add: Let_def)
qed

lemma heading_entries_contiguous:
  "hs \<noteq> [] \<Longrightarrow> sorted_wrt (<) (map heading_line hs) \<Longrightarrow> \<forall>h\<in>set hs. heading_line h < n \<Longrightarrow>
   contiguous (map (\<lambda>e. (s_start (snd e), s_end (snd e))) (heading_entries n hs index :: 'l markdown_section btree))
     (int (heading_line (hd hs))) (int n - 1)"
proof (induction hs arbitrary: index)
  case Nil
  then show ?case by simp
next
  case (Cons h rest)
  note IH = Cons.IH and prems = Cons.prems
  show ?case
  proof (cases rest)
    case Nil
    then show ?thesis using prems by simp
  next
    case (Cons h' rest')
    have "contiguous (map (\<lambda>e. (s_start (snd e), s_end (snd e)))
            (heading_entries n rest (index + 1) :: 'l markdown_section btree))
            (int (heading_line (hd rest))) (int n - 1)"
      using prems Cons by (intro IH) auto
    then show ?thesis using Cons prems(2) by simp
  qed
qed

lemma contiguous_union:
  "contiguous sp lo hi \<Longrightarrow> (\<Union>p\<in>set sp. {fst p .. snd p}) = {lo .. hi}"
proof (induction sp arbitrary: lo)
  case Nil
  then show ?case by simp
next
  case (Cons p sp)
  obtain a b where p: "p = (a, b)" by (cases p)
  from Cons.prems p have h: "a = lo" "a \<le> b" "contiguous sp (b + 1) hi" by simp_all
  have "b \<le> hi" using h(3)
  proof (induction sp arbitrary: b)
    case Nil
    then show ?case by simp
  next
    case (Cons q sp)
    then show ?case by (cases q) force
  qed
  then show ?case using Cons.IH[OF h(3)] h(1,2) p by auto
qed

lemma contiguous_lower: "contiguous sp lo hi \<Longrightarrow> \<forall>p\<in>set sp. lo \<le> fst p \<and> fst p \<le> snd p"
proof (induction sp arbitrary: lo)
  case Nil
  then show ?case by simp
next
  case (Cons p sp)
  obtain a b where p: "p = (a, b)" by (cases p)
  from Cons.prems p have h: "a = lo" "a \<le> b" "contiguous sp (b + 1) hi" by simp_all
  from Cons.IH[OF h(3)] h(1,2) p show ?case by force
qed

lemma contiguous_disjoint:
  "contiguous sp lo hi \<Longrightarrow> i < j \<Longrightarrow> j < length sp \<Longrightarrow>
   {fst (sp ! i) .. snd (sp ! i)} \<inter> {fst (sp ! j) .. snd (sp ! j)} = {}"
proof (induction sp arbitrary: lo i j)
  case Nil
  then show ?case by simp
next
  case (Cons p sp)
  obtain a b where p: "p = (a, b)" by (cases p)
  from Cons.prems(1) p have h: "a = lo" "a \<le> b" "contiguous sp (b + 1) hi" by simp_all
  obtain j' where j: "j = Suc j'" using Cons.prems(2) by (cases j) auto
  show ?case
  proof (cases i)
    case 0
    have "sp ! j' \<in> set sp" using Cons.prems(3) j by simp
    with contiguous_lower[OF h(3)] have "b + 1 \<le> fst (sp ! j')" by blast
    then show ?thesis using 0 j p by auto
  next
    case (Suc i')
    then show ?thesis using Cons.IH[OF h(3), of i' j'] Cons.prems(2,3) j by simp
  qed
qed

lemma emptylines_in_range:
  "0 \<le> index \<Longrightarrow> endl \<le> int (length lines) \<Longrightarrow>
   emptylines lines index endl = Inr (\<forall>j. index \<le> j \<and> j < endl \<longrightarrow> trim (lines ! nat j) = [])"
proof (induction lines index endl rule: emptylines.induct)
  case (1 lines index endl)
  show ?case
  proof (cases "index < endl")
    case False
    then show ?thesis by (subst emptylines.simps) auto
  next
    case True
    with 1(2,3) have r: "nat index < length lines" by simp
    show ?thesis
    proof (cases "trim (lines ! nat index) = []")
      case False
      then show ?thesis using True r 1(2)
        by (subst emptylines.simps) (auto simp: at_index_def)
    next
      case t: True
      have a: "at_index lines (nat index) = Some (lines ! nat index)" using r by (simp add: at_index_def)
      have a': "(if 0 \<le> index then at_index lines (nat index) else None) = Some (lines ! nat index)"
        using a 1(2) by simp
      have t': "\<not> trim (lines ! nat index) \<noteq> []" using t by simp
      have i': "0 \<le> index + 1" using 1(2) by simp
      have "emptylines lines (index + 1) endl =
            Inr (\<forall>j. index + 1 \<le> j \<and> j < endl \<longrightarrow> trim (lines ! nat j) = [])"
        using 1(1)[OF True a' t' i' 1(3)] .
      moreover have "(\<forall>j. index + 1 \<le> j \<and> j < endl \<longrightarrow> trim (lines ! nat j) = []) \<longleftrightarrow>
                     (\<forall>j. index \<le> j \<and> j < endl \<longrightarrow> trim (lines ! nat j) = [])"
      proof -
        have "j = index \<or> index + 1 \<le> j" if "index \<le> j" for j using that by arith
        then show ?thesis using t by (metis add_le_same_cancel1 le_add_same_cancel1 linorder_not_le zle_add1_eq_le zless_add1_eq)
      qed
      ultimately show ?thesis using True 1(2) a t
        by (subst emptylines.simps) simp
    qed
  qed
qed

lemma sort_headings_strict:
  "distinct (map heading_line hs) \<Longrightarrow> sorted_wrt (<) (map heading_line (sort_headings hs))"
proof -
  assume d: "distinct (map heading_line hs)"
  have "distinct (map heading_line (sort_headings hs))"
    using d by (simp add: distinct_map sort_headings_def)
  moreover have "sorted (map heading_line (sort_headings hs))"
    by (simp add: sort_headings_def)
  ultimately show ?thesis by (simp add: strict_sorted_iff)
qed

lemma sort_headings_set: "set (sort_headings hs) = set hs"
  by (simp add: sort_headings_def)

lemma sort_headings_Nil: "sort_headings hs = [] \<longleftrightarrow> hs = []"
  by (metis sort_headings_set set_empty)

lemma sort_headings_idem: "sort_headings (sort_headings hs) = sort_headings hs"
  by (simp add: sort_headings_def sort_key_id_if_sorted)

lemma getPairOrNextHigher_first:
  "\<forall>e\<in>set t. k \<le> fst e \<Longrightarrow> getPairOrNextHigher k t = (case t of [] \<Rightarrow> None | e # _ \<Rightarrow> Some e)"
  by (cases t) auto

lemma heading_entries_keys:
  "\<forall>e\<in>set (heading_entries n hs index). 0 \<le> fst e \<and> 1 \<le> s_ordinal (snd e)"
  by (induction hs arbitrary: index) auto

lemma heading_entries_Nil: "heading_entries n hs index = [] \<longleftrightarrow> hs = []"
  by (cases hs) auto

lemma heading_entries_hd:
  "hs \<noteq> [] \<Longrightarrow> s_start (snd (hd (heading_entries n hs index))) = int (heading_line (hd hs)) \<and>
                 fst (hd (heading_entries n hs index)) = int (heading_line (hd hs))"
  by (cases hs) auto

lemma build_sections_cases:
  fixes H :: "('s, 'l) helpers"
  assumes s: "sorted_wrt (<) (map heading_line hs)"
    and r: "\<forall>h\<in>set hs. heading_line h < length lines"
  shows "build_sections H path lines hs =
     Inr (if hs = [] then (if empty_doc lines then [] else [(0, implicit_section H path (int (length lines)))])
          else if (\<exists>j<heading_line (hd hs). trim (lines ! j) \<noteq> [])
          then (0, implicit_section H path (int (heading_line (hd hs)) - 1))
                 # heading_entries (length lines) hs 0
          else heading_entries (length lines) hs 0)"
proof -
  have hs: "heading_sections (length lines) hs 0 ([] :: 'l markdown_section btree)
              = heading_entries (length lines) hs 0"
    using heading_sections_entries[OF s, of "[]" "length lines" 0] by simp
  show ?thesis
  proof (cases "hs = []")
    case True
    then show ?thesis by (simp add: build_sections_def add_implicit_section_def)
  next
    case False
    let ?es = "heading_entries (length lines) hs 0 :: 'l markdown_section btree"
    let ?k = "heading_line (hd hs)"
    from False obtain e es where es: "?es = e # es" by (cases hs) auto
    have "\<forall>x\<in>set ?es. 0 \<le> fst x"
      using heading_entries_keys[of "length lines" hs 0] by blast
    from getPairOrNextHigher_first[OF this]
    have g: "getPairOrNextHigher 0 ?es = Some e"
      unfolding es by simp
    have "s_start (snd (hd ?es)) = int ?k \<and> fst (hd ?es) = int ?k"
      by (rule heading_entries_hd[OF False])
    then have st: "s_start (snd e) = int ?k" "fst e = int ?k"
      unfolding es by simp_all
    have "?k < length lines" using r False by simp
    then have em: "emptylines lines 0 (int ?k) =
        Inr (\<forall>j. 0 \<le> j \<and> j < int ?k \<longrightarrow> trim (lines ! nat j) = [])"
      by (intro emptylines_in_range) simp_all
    have q: "(\<forall>j. 0 \<le> j \<and> j < int ?k \<longrightarrow> trim (lines ! nat j) = []) \<longleftrightarrow>
             \<not> (\<exists>j<?k. trim (lines ! j) \<noteq> [])"
    proof
      assume a: "\<forall>j. 0 \<le> j \<and> j < int ?k \<longrightarrow> trim (lines ! nat j) = []"
      show "\<not> (\<exists>j<?k. trim (lines ! j) \<noteq> [])"
      proof
        assume "\<exists>j<?k. trim (lines ! j) \<noteq> []"
        then obtain j where "j < ?k" "trim (lines ! j) \<noteq> []" by blast
        with a[rule_format, of "int j"] show False by simp
      qed
    next
      assume a: "\<not> (\<exists>j<?k. trim (lines ! j) \<noteq> [])"
      show "\<forall>j. 0 \<le> j \<and> j < int ?k \<longrightarrow> trim (lines ! nat j) = []"
      proof (intro allI impI)
        fix j :: int assume "0 \<le> j \<and> j < int ?k"
        then have "nat j < ?k" by linarith
        with a show "trim (lines ! nat j) = []" by blast
      qed
    qed
    show ?thesis
    proof (cases "\<exists>j<?k. trim (lines ! j) \<noteq> []")
      case True
      then have "0 < ?k" by auto
      have "bt_set 0 (implicit_section H path (int ?k - 1)) ?es
                 = (0, implicit_section H path (int ?k - 1)) # ?es"
        using es st(2) \<open>0 < ?k\<close> by (cases e) simp
      then show ?thesis
        using True False g st em q hs by (simp add: build_sections_def add_implicit_section_def)
    next
      case f: False
      then show ?thesis
        using False g st em q hs by (simp add: build_sections_def add_implicit_section_def)
    qed
  qed
qed

lemma bt_modify_map:
  "(\<And>v. g (f v) = g v) \<Longrightarrow>
   map (\<lambda>e. (fst e, g (snd e))) (bt_modify k f t) = map (\<lambda>e. (fst e, g (snd e))) t"
  by (induction t) (auto simp: bt_modify_def)

lemma assign_block_core:
  "map (\<lambda>e. (fst e, section_core (snd e), s_links (snd e))) (assign_block sections entry) =
   map (\<lambda>e. (fst e, section_core (snd e), s_links (snd e))) sections"
  unfolding assign_block_def
  by (auto split: option.splits intro!: bt_modify_map simp: section_core_def)

lemma assign_blocks_core:
  "map (\<lambda>e. (fst e, section_core (snd e), s_links (snd e))) (assign_blocks blocks sections) =
   map (\<lambda>e. (fst e, section_core (snd e), s_links (snd e))) sections"
  unfolding assign_blocks_def
  by (induction blocks arbitrary: sections) (simp_all add: assign_block_core)

lemma add_section_link_core:
  "map (\<lambda>e. (fst e, section_core (snd e))) (add_section_link eq lnk ln found sections) =
   map (\<lambda>e. (fst e, section_core (snd e))) sections"
  unfolding add_section_link_def
  by (auto split: option.splits intro!: bt_modify_map simp: section_core_def)

lemma link_step_core:
  "map (\<lambda>e. (fst e, section_core (snd e))) (fst (snd (link_step H st ld))) =
   map (\<lambda>e. (fst e, section_core (snd e))) (fst (snd st))"
  by (cases st) (simp add: link_step_def Let_def add_section_link_core)

lemma add_links_core:
  "map (\<lambda>e. (fst e, section_core (snd e))) (fst (snd (add_links H st lds))) =
   map (\<lambda>e. (fst e, section_core (snd e))) (fst (snd st))"
  unfolding add_links_def
  by (induction lds arbitrary: st) (simp_all add: link_step_core)

lemma map_proj: "map (\<lambda>e. (fst e, g (snd e))) xs = map (\<lambda>e. (fst e, g (snd e))) ys \<Longrightarrow>
    map (\<lambda>e. g (snd e)) xs = map (\<lambda>e. g (snd e)) ys"
proof -
  assume a: "map (\<lambda>e. (fst e, g (snd e))) xs = map (\<lambda>e. (fst e, g (snd e))) ys"
  have "map snd (map (\<lambda>e. (fst e, g (snd e))) xs) = map snd (map (\<lambda>e. (fst e, g (snd e))) ys)"
    using a by simp
  then show ?thesis by (simp add: comp_def)
qed

lemma json_core_of: "json_core (json_section_of blocks s) = section_core s"
  by (simp add: json_core_def json_section_of_def section_core_def)

lemma markdownImport_sections:
  assumes "build_sections H path (split_nl markdown)
             (case md_headings metadata of None \<Rightarrow> [] | Some hs \<Rightarrow> sort_headings hs) = Inr secs"
  shows "\<exists>page. fst (markdownImport H path markdown metadata excludeExample) = Inr page \<and>
           map json_core (p_sections page) = map (\<lambda>e. section_core (snd e)) secs \<and>
           p_end page = int (length (split_nl markdown))"
proof -
  let ?blocks = "fst (build_blocks H (split_nl markdown) markdown excludeExample
                        (case md_sections metadata of None \<Rightarrow> [] | Some ss \<Rightarrow> ss))"
  let ?st = "add_links H ([], assign_blocks ?blocks secs, ?blocks)
               (case md_links metadata of None \<Rightarrow> [] | Some ls \<Rightarrow> ls)"
  have i: "index_state H path markdown metadata excludeExample = Inr ?st"
    using assms by (simp add: index_state_def Let_def)
  have "map (\<lambda>e. (fst e, section_core (snd e))) (fst (snd ?st)) =
        map (\<lambda>e. (fst e, section_core (snd e))) (assign_blocks ?blocks secs)"
    using add_links_core[of H "([], assign_blocks ?blocks secs, ?blocks)"] by simp
  then have "map (\<lambda>e. section_core (snd e)) (fst (snd ?st)) =
        map (\<lambda>e. section_core (snd e)) (assign_blocks ?blocks secs)"
    by (rule map_proj)
  also have "\<dots> = map (\<lambda>e. section_core (snd e)) secs"
  proof -
    have "map (\<lambda>e. (fst e, section_core (snd e), s_links (snd e))) (assign_blocks ?blocks secs) =
          map (\<lambda>e. (fst e, section_core (snd e), s_links (snd e))) secs"
      by (rule assign_blocks_core)
    then have "map (\<lambda>e. fst (snd e)) (map (\<lambda>e. (fst e, section_core (snd e), s_links (snd e))) (assign_blocks ?blocks secs)) =
          map (\<lambda>e. fst (snd e)) (map (\<lambda>e. (fst e, section_core (snd e), s_links (snd e))) secs)"
      by simp
    then show ?thesis by (simp add: comp_def)
  qed
  finally have c: "map (\<lambda>e. section_core (snd e)) (fst (snd ?st)) = map (\<lambda>e. section_core (snd e)) secs" .
  show ?thesis
    using i c by (simp add: markdownImport_def Let_def bt_values_def comp_def json_core_of)
qed

lemma json_core_fields:
  "json_core s = (a, b, c, d, e) \<longleftrightarrow>
     js_ordinal s = a \<and> js_title s = b \<and> js_level s = c \<and> js_start s = d \<and> js_end s = e"
  by (auto simp: json_core_def)

lemma spans_of_cores:
  "map json_core ps = map (\<lambda>e. section_core (snd e)) secs \<Longrightarrow>
   map (\<lambda>s. (js_start s, js_end s)) ps = map (\<lambda>e. (s_start (snd e), s_end (snd e))) secs"
proof -
  assume a: "map json_core ps = map (\<lambda>e. section_core (snd e)) secs"
  have "map (\<lambda>c. (fst (snd (snd (snd c))), snd (snd (snd (snd c))))) (map json_core ps) =
        map (\<lambda>c. (fst (snd (snd (snd c))), snd (snd (snd (snd c))))) (map (\<lambda>e. section_core (snd e)) secs)"
    using a by simp
  then show ?thesis by (simp add: comp_def json_core_def section_core_def)
qed

lemma ordinals_of_cores:
  "map json_core ps = map (\<lambda>e. section_core (snd e)) secs \<Longrightarrow>
   map js_ordinal ps = map (\<lambda>e. s_ordinal (snd e)) secs"
proof -
  assume a: "map json_core ps = map (\<lambda>e. section_core (snd e)) secs"
  have "map fst (map json_core ps) = map fst (map (\<lambda>e. section_core (snd e)) secs)"
    using a by simp
  then show ?thesis by (simp add: comp_def json_core_def section_core_def)
qed

lemma heading_ordinals_positive:
  "map js_ordinal ps = map (\<lambda>e. s_ordinal (snd e)) (heading_entries n hs index) \<Longrightarrow>
   \<forall>s\<in>set ps. 1 \<le> js_ordinal s"
proof -
  assume a: "map js_ordinal ps = map (\<lambda>e. s_ordinal (snd e)) (heading_entries n hs index)"
  have "\<forall>x\<in>set (map (\<lambda>e. s_ordinal (snd e)) (heading_entries n hs index)). 1 \<le> x"
    using heading_entries_keys[of n hs index] by auto
  then have "\<forall>x\<in>set (map js_ordinal ps). 1 \<le> x" using a by simp
  then show ?thesis by simp
qed

lemma spans_union:
  "(\<Union>p\<in>set (map (\<lambda>s. (js_start s, js_end s)) ps). {fst p .. snd p}) =
   (\<Union>s\<in>set ps. {js_start s .. js_end s})"
  by auto

lemma sorted_hd_least:
  "hs \<noteq> [] \<Longrightarrow> \<forall>h\<in>set hs. heading_line (hd (sort_headings hs)) \<le> heading_line h"
proof -
  assume ne: "hs \<noteq> []"
  let ?s = "sort_headings hs"
  have so: "sorted (map heading_line ?s)" by (simp add: sort_headings_def)
  from ne obtain x xs where x: "?s = x # xs" by (cases ?s) (auto simp: sort_headings_Nil)
  have "\<forall>h\<in>set ?s. heading_line x \<le> heading_line h"
    using so unfolding x by auto
  then have "\<forall>h\<in>set hs. heading_line x \<le> heading_line h"
    unfolding sort_headings_set .
  then show ?thesis using x by simp
qed

text \<open>The sections of the page in the four cases of the section builder.\<close>

lemma page_sections_cases:
  fixes H :: "('s, 'l) helpers"
  assumes hs: "hs = (case md_headings metadata of None \<Rightarrow> [] | Some hs \<Rightarrow> hs)"
    and lines: "lines = split_nl markdown"
    and d: "distinct (map heading_line hs)"
    and r: "\<forall>h\<in>set hs. heading_line h < length lines"
    and first: "first = heading_line (hd (sort_headings hs))"
  shows "\<exists>page. fst (markdownImport H path markdown metadata excludeExample) = Inr page \<and>
     p_end page = int (length lines) \<and>
     map json_core (p_sections page) =
       map (\<lambda>e. section_core (snd e))
        (if hs = [] then (if empty_doc lines then [] else [(0, implicit_section H path (int (length lines)))])
         else if (\<exists>j<first. trim (lines ! j) \<noteq> [])
         then (0, implicit_section H path (int first - 1))
                # heading_entries (length lines) (sort_headings hs) 0
         else (heading_entries (length lines) (sort_headings hs) 0 :: 'l markdown_section btree))"
proof -
  have mh: "(case md_headings metadata of None \<Rightarrow> [] | Some hs \<Rightarrow> sort_headings hs) = sort_headings hs"
    using hs by (cases "md_headings metadata") (simp_all add: sort_headings_def)
  have s: "sorted_wrt (<) (map heading_line (sort_headings hs))"
    using d by (rule sort_headings_strict)
  have r': "\<forall>h\<in>set (sort_headings hs). heading_line h < length lines"
    using r by (simp add: sort_headings_set)
  from build_sections_cases[OF s r', of H path]
  have b: "build_sections H path (split_nl markdown)
             (case md_headings metadata of None \<Rightarrow> [] | Some hs \<Rightarrow> sort_headings hs) =
     Inr (if hs = [] then (if empty_doc lines then [] else [(0, implicit_section H path (int (length lines)))])
         else if (\<exists>j<first. trim (lines ! j) \<noteq> [])
         then (0, implicit_section H path (int first - 1))
                # heading_entries (length lines) (sort_headings hs) 0
         else heading_entries (length lines) (sort_headings hs) 0)"
    unfolding mh lines first by (simp add: sort_headings_Nil)
  from markdownImport_sections[OF b, of excludeExample] show ?thesis
    unfolding lines by blast
qed

lemma implicit_core:
  "section_core (implicit_section H path endl) = (0, getFileTitle H path, 1, 0, endl)"
  by (simp add: section_core_def implicit_section_def)

lemma ordinal_zero_is_head:
  assumes m: "map json_core ps = c0 # cs"
    and o: "\<forall>c\<in>set cs. 1 \<le> fst c"
    and s: "s \<in> set ps" "js_ordinal s = 0"
  shows "s = hd ps \<and> json_core s = c0"
proof -
  from m obtain p0 ps' where ps: "ps = p0 # ps'" "json_core p0 = c0" "map json_core ps' = cs"
    by (cases ps) auto
  have "s \<notin> set ps'"
  proof
    assume "s \<in> set ps'"
    then have "json_core s \<in> set cs" using ps(3) by force
    with o have "1 \<le> fst (json_core s)" by blast
    with s(2) show False by (simp add: json_core_def)
  qed
  with s(1) ps show ?thesis by simp
qed

lemma heading_cores_positive:
  "\<forall>c\<in>set (map (\<lambda>e. section_core (snd e)) (heading_entries n hs index)). 1 \<le> fst c"
  using heading_entries_keys[of n hs index] by (auto simp: section_core_def)

lemma empty_doc_iff: "empty_doc lines \<longleftrightarrow> (\<forall>l\<in>set lines. trim l = [])"
  by (auto simp: empty_doc_def list_ex_iff)

lemmas import_eval =
  markdownImport_def index_state_def build_sections_def add_implicit_section_def
  emptylines.simps at_index_def empty_doc_def trim_def is_space_def is_line_terminator_def
  sort_headings_def heading_line_def build_blocks_def block_step_def assign_blocks_def
  assign_block_def add_links_def link_step_def add_frontmatter_links_def addLink_def
  add_section_link_def add_block_link_def bt_modify_def bt_values_def bt_get_def
  json_section_of_def deref_blocks_def implicit_section_def js_def Let_def

lemma example_intro_lines:
  "split_nl example_intro_text = [js ''intro'', [], js ''# H1'', js ''body'']"
  by (simp add: example_intro_text_def js_def)

lemma example_intro_facts:
  "[example_intro_heading] = (case md_headings example_intro_outline of None \<Rightarrow> [] | Some hs \<Rightarrow> hs)"
  "distinct (map heading_line [example_intro_heading])"
  "\<forall>h\<in>set [example_intro_heading]. heading_line h < length (split_nl example_intro_text)"
  "2 = heading_line (hd (sort_headings [example_intro_heading]))"
  unfolding example_intro_lines
  by (simp_all add: example_intro_outline_def example_intro_heading_def heading_line_def
      sort_headings_def)

lemma example_intro_lead: "\<exists>j<2. trim (split_nl example_intro_text ! j) \<noteq> []"
proof -
  have "trim (split_nl example_intro_text ! 0) \<noteq> []"
    unfolding example_intro_lines
    by (simp add: trim_def js_def is_space_def is_line_terminator_def)
  then show ?thesis by (intro exI[of _ 0]) simp
qed

lemma example_plain_facts:
  "[] = (case md_headings example_plain_outline of None \<Rightarrow> [] | Some hs \<Rightarrow> hs)"
  "distinct (map heading_line [])"
  by (simp_all add: example_plain_outline_def)

text \<open>
  Claim C2 fails as stated.  An implicit section is made only when a line before the first
  heading is not blank, so blank lines before the first heading belong to no section.
  For the document of the two lines \<open>""\<close> and \<open>"# H"\<close> the only section spans line 1, and
  line 0 is not covered, though the document is not blank.  And the sections of the
  headings are made whatever the lines hold: for the blank text \<open>" "\<close> with an outline
  that has a heading on line 0, there is one section.
\<close>

theorem sections_partition_counterexample:
  "fst (markdownImport example_helpers (js ''note.md'') (10 # js ''# H'') example_blank_lead_outline False) =
     Inr \<lparr> p_path = js ''note.md'', p_links = [],
           p_sections = [\<lparr> js_ordinal = 1, js_title = js ''H'', js_level = 1, js_start = 1, js_end = 1,
                            js_blocks = [], js_links = [] \<rparr>],
           p_extension = js ''md'', p_start = 0, p_end = 2 \<rparr> \<and>
   \<not> empty_doc (split_nl (10 # js ''# H'')) \<and>
   fst (markdownImport example_helpers (js ''note.md'') (js '' '') example_top_heading_outline False) =
     Inr \<lparr> p_path = js ''note.md'', p_links = [],
           p_sections = [\<lparr> js_ordinal = 1, js_title = js ''x'', js_level = 1, js_start = 0, js_end = 0,
                            js_blocks = [], js_links = [] \<rparr>],
           p_extension = js ''md'', p_start = 0, p_end = 1 \<rparr> \<and>
   empty_doc (split_nl (js '' ''))"
  by (simp add: import_eval example_blank_lead_outline_def example_top_heading_outline_def
      example_helpers_def)

text \<open>
  Claim C2, as amended.  Let the headings of the outline have distinct start lines
  within the document, and \<open>first\<close> be the least of them.  The spans of the sections of
  the page are pairwise disjoint.  When there is a heading, their union is the range
  of lines from \<open>lo\<close> to the last line, where \<open>lo\<close> is 0 when some line before the first
  heading is not blank and \<open>first\<close> otherwise.  When there is no heading and the document
  is not blank, there is exactly one section, which starts at line 0 and covers every
  line of the document.  When there is no heading and the document is blank, there is
  no section.
\<close>

theorem sections_partition:
  fixes H :: "('s, 'l) helpers"
  assumes hs: "hs = (case md_headings metadata of None \<Rightarrow> [] | Some hs \<Rightarrow> hs)"
    and lines: "lines = split_nl markdown"
    and d: "distinct (map heading_line hs)"
    and r: "\<forall>h\<in>set hs. heading_line h < length lines"
    and first: "first = heading_line (hd (sort_headings hs))"
  shows "\<exists>page. fst (markdownImport H path markdown metadata excludeExample) = Inr page \<and>
     (\<forall>i j. i < j \<and> j < length (p_sections page) \<longrightarrow>
        {js_start (p_sections page ! i) .. js_end (p_sections page ! i)} \<inter>
        {js_start (p_sections page ! j) .. js_end (p_sections page ! j)} = {}) \<and>
     (hs \<noteq> [] \<longrightarrow>
        (\<Union>s\<in>set (p_sections page). {js_start s .. js_end s}) =
          {(if \<exists>j<first. trim (lines ! j) \<noteq> [] then 0 else int first) .. int (length lines) - 1}) \<and>
     (hs = [] \<and> \<not> empty_doc lines \<longrightarrow>
        length (p_sections page) = 1 \<and> js_start (hd (p_sections page)) = 0 \<and>
        {0 .. int (length lines) - 1} \<subseteq>
          {js_start (hd (p_sections page)) .. js_end (hd (p_sections page))}) \<and>
     (hs = [] \<and> empty_doc lines \<longrightarrow> p_sections page = [])"
proof -
  from page_sections_cases[OF hs lines d r first, of H path excludeExample]
  obtain page where p: "fst (markdownImport H path markdown metadata excludeExample) = Inr page"
    and e: "p_end page = int (length lines)"
    and c: "map json_core (p_sections page) =
       map (\<lambda>e. section_core (snd e))
        (if hs = [] then (if empty_doc lines then [] else [(0, implicit_section H path (int (length lines)))])
         else if (\<exists>j<first. trim (lines ! j) \<noteq> [])
         then (0, implicit_section H path (int first - 1))
                # heading_entries (length lines) (sort_headings hs) 0
         else (heading_entries (length lines) (sort_headings hs) 0 :: 'l markdown_section btree))"
    by blast
  let ?ps = "p_sections page"
  let ?sp = "map (\<lambda>s. (js_start s, js_end s)) ?ps"
  let ?lo = "if \<exists>j<first. trim (lines ! j) \<noteq> [] then 0 else int first"
  let ?es = "heading_entries (length lines) (sort_headings hs) 0 :: 'l markdown_section btree"
  have sp: "?sp = map (\<lambda>e. (s_start (snd e), s_end (snd e)))
        (if hs = [] then (if empty_doc lines then [] else [(0, implicit_section H path (int (length lines)))])
         else if (\<exists>j<first. trim (lines ! j) \<noteq> [])
         then (0, implicit_section H path (int first - 1)) # ?es
         else ?es)"
    using c by (rule spans_of_cores)
  have cont: "contiguous ?sp ?lo (int (length lines) - 1)" if ne: "hs \<noteq> []"
  proof -
    have ne': "sort_headings hs \<noteq> []" using ne by (simp add: sort_headings_Nil)
    have s: "sorted_wrt (<) (map heading_line (sort_headings hs))"
      using d by (rule sort_headings_strict)
    have r': "\<forall>h\<in>set (sort_headings hs). heading_line h < length lines"
      using r by (simp add: sort_headings_set)
    have ce: "contiguous (map (\<lambda>e. (s_start (snd e), s_end (snd e))) ?es)
                (int first) (int (length lines) - 1)"
      unfolding first by (rule heading_entries_contiguous[OF ne' s r'])
    show ?thesis
    proof (cases "\<exists>j<first. trim (lines ! j) \<noteq> []")
      case True
      then have f: "0 < first" by auto
      have "?sp = (0, int first - 1) # map (\<lambda>e. (s_start (snd e), s_end (snd e))) ?es"
        unfolding sp if_not_P[OF ne] if_P[OF True] by (simp add: implicit_section_def)
      moreover have "?lo = 0" by (rule if_P[OF True])
      ultimately show ?thesis using ce f by simp
    next
      case False
      have "?sp = map (\<lambda>e. (s_start (snd e), s_end (snd e))) ?es"
        unfolding sp if_not_P[OF ne] if_not_P[OF False] ..
      moreover have "?lo = int first" by (rule if_not_P[OF False])
      ultimately show ?thesis using ce by simp
    qed
  qed
  have short: "length ?ps \<le> 1" if "hs = []"
  proof -
    have "length ?sp \<le> 1" unfolding sp using that by simp
    then show ?thesis by simp
  qed
  have disj: "{js_start (?ps ! i) .. js_end (?ps ! i)} \<inter> {js_start (?ps ! j) .. js_end (?ps ! j)} = {}"
    if ij: "i < j" "j < length ?ps" for i j
  proof (cases "hs = []")
    case True
    with short ij show ?thesis by simp
  next
    case False
    from contiguous_disjoint[OF cont[OF False], of i j] ij
    show ?thesis by simp
  qed
  have un: "(\<Union>s\<in>set ?ps. {js_start s .. js_end s}) = {?lo .. int (length lines) - 1}" if "hs \<noteq> []"
    using contiguous_union[OF cont[OF that]] unfolding spans_union .
  have one: "length ?ps = 1 \<and> js_start (hd ?ps) = 0 \<and>
        {0 .. int (length lines) - 1} \<subseteq> {js_start (hd ?ps) .. js_end (hd ?ps)}"
    if "hs = []" "\<not> empty_doc lines"
  proof -
    have q: "?sp = [(0, int (length lines))]"
      unfolding sp using that by (simp add: implicit_section_def)
    then have "length ?sp = 1" by simp
    then have l: "length ?ps = 1" by simp
    then obtain p0 where p0: "?ps = [p0]" by (cases ?ps) auto
    with q have "js_start p0 = 0" "js_end p0 = int (length lines)" by simp_all
    with l p0 show ?thesis by simp
  qed
  have none: "?ps = []" if "hs = []" "empty_doc lines"
  proof -
    have "?sp = []" unfolding sp using that by simp
    then show ?thesis by simp
  qed
  show ?thesis
  proof (intro exI[of _ page] conjI)
    show "fst (markdownImport H path markdown metadata excludeExample) = Inr page" by (fact p)
    show "\<forall>i j. i < j \<and> j < length ?ps \<longrightarrow>
        {js_start (?ps ! i) .. js_end (?ps ! i)} \<inter> {js_start (?ps ! j) .. js_end (?ps ! j)} = {}"
      using disj by blast
    show "hs \<noteq> [] \<longrightarrow> (\<Union>s\<in>set ?ps. {js_start s .. js_end s}) = {?lo .. int (length lines) - 1}"
      using un by blast
    show "hs = [] \<and> \<not> empty_doc lines \<longrightarrow> length ?ps = 1 \<and> js_start (hd ?ps) = 0 \<and>
        {0 .. int (length lines) - 1} \<subseteq> {js_start (hd ?ps) .. js_end (hd ?ps)}"
      using one by blast
    show "hs = [] \<and> empty_doc lines \<longrightarrow> ?ps = []"
      using none by blast
  qed
qed

theorem sections_partition_witness:
  "(\<exists>page. fst (markdownImport example_helpers (js ''note.md'') example_intro_text
               example_intro_outline False) = Inr page \<and>
      (\<Union>s\<in>set (p_sections page). {js_start s .. js_end s}) = {0 .. 3}) \<and>
   (\<exists>page. fst (markdownImport example_helpers (js ''note.md'') (js ''x'')
               example_plain_outline False) = Inr page \<and>
      length (p_sections page) = 1 \<and> js_start (hd (p_sections page)) = 0 \<and>
      0 \<le> js_end (hd (p_sections page))) \<and>
   (\<exists>page. fst (markdownImport example_helpers (js ''note.md'') (js '' '')
               example_plain_outline False) = Inr page \<and>
      p_sections page = [])"
proof -
  from sections_partition[OF example_intro_facts(1) refl example_intro_facts(2,3,4),
      of example_helpers "js ''note.md''" False]
  obtain page where p: "fst (markdownImport example_helpers (js ''note.md'') example_intro_text
               example_intro_outline False) = Inr page"
    and u: "[example_intro_heading] \<noteq> [] \<longrightarrow>
        (\<Union>s\<in>set (p_sections page). {js_start s .. js_end s}) =
          {(if \<exists>j<2. trim (split_nl example_intro_text ! j) \<noteq> [] then 0 else int 2) ..
             int (length (split_nl example_intro_text)) - 1}"
    by blast
  have "(\<Union>s\<in>set (p_sections page). {js_start s .. js_end s}) = {0 .. 3}"
    using u example_intro_lead by (simp add: example_intro_lines)
  with p have A: "\<exists>page. fst (markdownImport example_helpers (js ''note.md'') example_intro_text
               example_intro_outline False) = Inr page \<and>
      (\<Union>s\<in>set (p_sections page). {js_start s .. js_end s}) = {0 .. 3}" by blast
  have nb: "\<not> empty_doc (split_nl (js ''x''))"
    by (simp add: empty_doc_def trim_def is_space_def is_line_terminator_def js_def)
  have bl: "empty_doc (split_nl (js '' ''))"
    by (simp add: empty_doc_def trim_def is_space_def is_line_terminator_def js_def)
  have r: "\<forall>h\<in>set ([] :: heading_cache list). heading_line h < length (split_nl m)" for m
    by simp
  from sections_partition[OF example_plain_facts(1) refl example_plain_facts(2) r refl,
      of example_helpers "js ''note.md''" "js ''x''" False]
  obtain page1 where p1: "fst (markdownImport example_helpers (js ''note.md'') (js ''x'')
               example_plain_outline False) = Inr page1"
    and o: "([] :: heading_cache list) = [] \<and> \<not> empty_doc (split_nl (js ''x'')) \<longrightarrow>
        length (p_sections page1) = 1 \<and> js_start (hd (p_sections page1)) = 0 \<and>
        {0 .. int (length (split_nl (js ''x''))) - 1} \<subseteq>
          {js_start (hd (p_sections page1)) .. js_end (hd (p_sections page1))}"
    by blast
  from o nb have o1: "length (p_sections page1) = 1" "js_start (hd (p_sections page1)) = 0"
    and o2: "{0 .. int (length (split_nl (js ''x''))) - 1} \<subseteq>
          {js_start (hd (p_sections page1)) .. js_end (hd (p_sections page1))}"
    by blast+
  have n: "length (split_nl (js ''x'')) = 1" by (simp add: js_def)
  have "(0::int) \<in> {0 .. int (length (split_nl (js ''x''))) - 1}" unfolding n by simp
  with o2 have "0 \<le> js_end (hd (p_sections page1))" by (simp add: subset_iff)
  with p1 o1 have B: "\<exists>page. fst (markdownImport example_helpers (js ''note.md'') (js ''x'')
               example_plain_outline False) = Inr page \<and>
      length (p_sections page) = 1 \<and> js_start (hd (p_sections page)) = 0 \<and>
      0 \<le> js_end (hd (p_sections page))" by blast
  from sections_partition[OF example_plain_facts(1) refl example_plain_facts(2) r refl,
      of example_helpers "js ''note.md''" "js '' ''" False]
  obtain page2 where p2: "fst (markdownImport example_helpers (js ''note.md'') (js '' '')
               example_plain_outline False) = Inr page2"
    and z: "([] :: heading_cache list) = [] \<and> empty_doc (split_nl (js '' '')) \<longrightarrow>
        p_sections page2 = []"
    by blast
  from z bl p2 have C: "\<exists>page. fst (markdownImport example_helpers (js ''note.md'') (js '' '')
               example_plain_outline False) = Inr page \<and> p_sections page = []" by blast
  from A B C show ?thesis by blast
qed

text \<open>
  When the implicit section is made.  Let the headings of the outline have distinct
  start lines within the document, and \<open>first\<close> be the least of them.  The page has a
  section with ordinal 0 exactly when there is a heading, \<open>first\<close> is not 0 and some line
  before \<open>first\<close> is not blank, or there is no heading and the document is not blank.
  That section is the first of the page, has level 1 and the title made from the path,
  starts at line 0 and ends at \<open>first - 1\<close>, or, when there is no heading, at
  \<open>lines.length\<close>.  The sections of the headings have ordinals from 1 on.
\<close>

lemma implicit_section_cases:
  fixes H :: "('s, 'l) helpers"
  assumes hs: "hs = (case md_headings metadata of None \<Rightarrow> [] | Some hs \<Rightarrow> hs)"
    and lines: "lines = split_nl markdown"
    and d: "distinct (map heading_line hs)"
    and r: "\<forall>h\<in>set hs. heading_line h < length lines"
    and first: "first = heading_line (hd (sort_headings hs))"
  shows "\<exists>page. fst (markdownImport H path markdown metadata excludeExample) = Inr page \<and>
     ((\<exists>s\<in>set (p_sections page). js_ordinal s = 0) \<longleftrightarrow>
        (hs \<noteq> [] \<and> first \<noteq> 0 \<and> (\<exists>j<first. trim (lines ! j) \<noteq> [])) \<or>
        (hs = [] \<and> \<not> empty_doc lines)) \<and>
     (\<forall>s\<in>set (p_sections page). js_ordinal s = 0 \<longrightarrow>
        s = hd (p_sections page) \<and> js_level s = 1 \<and> js_title s = getFileTitle H path \<and>
        js_start s = 0 \<and> js_end s = (if hs = [] then p_end page else int first - 1)) \<and>
     p_end page = int (length lines) \<and>
     (hs \<noteq> [] \<longrightarrow> (\<forall>h\<in>set hs. first \<le> heading_line h))"
proof -
  from page_sections_cases[OF hs lines d r first, of H path excludeExample]
  obtain page where p: "fst (markdownImport H path markdown metadata excludeExample) = Inr page"
    and e: "p_end page = int (length lines)"
    and c: "map json_core (p_sections page) =
       map (\<lambda>e. section_core (snd e))
        (if hs = [] then (if empty_doc lines then [] else [(0, implicit_section H path (int (length lines)))])
         else if (\<exists>j<first. trim (lines ! j) \<noteq> [])
         then (0, implicit_section H path (int first - 1))
                # heading_entries (length lines) (sort_headings hs) 0
         else (heading_entries (length lines) (sort_headings hs) 0 :: 'l markdown_section btree))"
    by blast
  let ?ps = "p_sections page"
  let ?cond = "(hs \<noteq> [] \<and> first \<noteq> 0 \<and> (\<exists>j<first. trim (lines ! j) \<noteq> [])) \<or>
        (hs = [] \<and> \<not> empty_doc lines)"
  let ?endl = "if hs = [] then int (length lines) else int first - 1"
  have least: "hs \<noteq> [] \<longrightarrow> (\<forall>h\<in>set hs. first \<le> heading_line h)"
    using sorted_hd_least[of hs] first by simp
  have A: "(\<exists>s\<in>set ?ps. js_ordinal s = 0) \<longleftrightarrow> ?cond"
    and B: "\<forall>s\<in>set ?ps. js_ordinal s = 0 \<longrightarrow>
        s = hd ?ps \<and> json_core s = (0, getFileTitle H path, 1, 0, ?endl)"
  proof -
    show "(\<exists>s\<in>set ?ps. js_ordinal s = 0) \<longleftrightarrow> ?cond"
    proof (cases ?cond)
      case True
      then have "map json_core ?ps = (0, getFileTitle H path, 1, 0, ?endl) #
          (if hs = [] then [] else map (\<lambda>e. section_core (snd e))
              (heading_entries (length lines) (sort_headings hs) 0 :: 'l markdown_section btree))"
        using c by (auto simp: implicit_core)
      then obtain p0 ps' where "?ps = p0 # ps'" "json_core p0 = (0, getFileTitle H path, 1, 0, ?endl)"
        by (cases ?ps) auto
      then have "p0 \<in> set ?ps \<and> js_ordinal p0 = 0" by (simp add: json_core_def)
      with True show ?thesis by blast
    next
      case False
      then have "map json_core ?ps = (if hs = [] then [] else map (\<lambda>e. section_core (snd e))
              (heading_entries (length lines) (sort_headings hs) 0 :: 'l markdown_section btree))"
        using c by auto
      then have "\<forall>c\<in>set (map json_core ?ps). 1 \<le> fst c"
        using heading_cores_positive[of "length lines" "sort_headings hs" 0] by auto
      then have "\<forall>s\<in>set ?ps. 1 \<le> js_ordinal s" by (simp add: json_core_def)
      with False show ?thesis by fastforce
    qed
    show "\<forall>s\<in>set ?ps. js_ordinal s = 0 \<longrightarrow>
        s = hd ?ps \<and> json_core s = (0, getFileTitle H path, 1, 0, ?endl)"
    proof (intro ballI impI)
      fix s assume s: "s \<in> set ?ps" "js_ordinal s = 0"
      show "s = hd ?ps \<and> json_core s = (0, getFileTitle H path, 1, 0, ?endl)"
      proof (cases ?cond)
        case True
        then have m: "map json_core ?ps = (0, getFileTitle H path, 1, 0, ?endl) #
          (if hs = [] then [] else map (\<lambda>e. section_core (snd e))
              (heading_entries (length lines) (sort_headings hs) 0 :: 'l markdown_section btree))"
          using c by (auto simp: implicit_core)
        have o: "\<forall>c\<in>set (if hs = [] then [] else map (\<lambda>e. section_core (snd e))
              (heading_entries (length lines) (sort_headings hs) 0 :: 'l markdown_section btree)). 1 \<le> fst c"
          using heading_cores_positive[of "length lines" "sort_headings hs" 0] by auto
        from ordinal_zero_is_head[OF m o s] show ?thesis .
      next
        case False
        then have "map json_core ?ps = (if hs = [] then [] else map (\<lambda>e. section_core (snd e))
              (heading_entries (length lines) (sort_headings hs) 0 :: 'l markdown_section btree))"
          using c by auto
        then have "\<forall>c\<in>set (map json_core ?ps). 1 \<le> fst c"
          using heading_cores_positive[of "length lines" "sort_headings hs" 0] by auto
        then have "\<forall>s\<in>set ?ps. 1 \<le> js_ordinal s" by (simp add: json_core_def)
        with s show ?thesis by fastforce
      qed
    qed
  qed
  have B': "\<forall>s\<in>set ?ps. js_ordinal s = 0 \<longrightarrow>
        s = hd ?ps \<and> js_level s = 1 \<and> js_title s = getFileTitle H path \<and>
        js_start s = 0 \<and> js_end s = (if hs = [] then p_end page else int first - 1)"
    using B e by (auto simp: json_core_fields)
  show ?thesis using p A B' e least by blast
qed

text \<open>
  Claim C3 does not hold of the code where it says that, without headings, the implicit
  section ends at the end of the document.  The sections of the headings end on a line
  of the document, the last of them on the last line, \<open>lines.length - 1\<close>; the implicit
  section of a document without headings ends at \<open>lines.length\<close>, one past the last line.
  For the one-line text \<open>x\<close> without headings, the implicit section spans lines 0 to 1,
  and the document has only line 0; for the one-line text \<open># x\<close>, the section of the
  heading spans line 0 to line 0.  When the implicit section is made, and where it ends
  before a heading, is as the claim says.
\<close>

theorem implicit_section_end_past_last_line:
  "split_nl (js ''x'') = [js ''x''] \<and>
   fst (markdownImport example_helpers (js ''note.md'') (js ''x'') example_plain_outline False) =
     Inr \<lparr> p_path = js ''note.md'', p_links = [],
           p_sections = [\<lparr> js_ordinal = 0, js_title = js ''note.md'', js_level = 1,
                            js_start = 0, js_end = 1, js_blocks = [], js_links = [] \<rparr>],
           p_extension = js ''md'', p_start = 0, p_end = 1 \<rparr> \<and>
   split_nl (js ''# x'') = [js ''# x''] \<and>
   fst (markdownImport example_helpers (js ''note.md'') (js ''# x'') example_top_heading_outline False) =
     Inr \<lparr> p_path = js ''note.md'', p_links = [],
           p_sections = [\<lparr> js_ordinal = 1, js_title = js ''x'', js_level = 1,
                            js_start = 0, js_end = 0, js_blocks = [], js_links = [] \<rparr>],
           p_extension = js ''md'', p_start = 0, p_end = 1 \<rparr>"
  by (simp add: import_eval example_plain_outline_def example_top_heading_outline_def
      example_helpers_def)

section \<open>Determinism\<close>

lemma index_state_resorted:
  "index_state H path markdown
     (metadata\<lparr> md_headings := map_option sort_headings (md_headings metadata) \<rparr>) excludeExample =
   index_state H path markdown metadata excludeExample"
proof (cases "md_headings metadata")
  case None
  then show ?thesis by (simp add: index_state_def Let_def split: sum.splits)
next
  case (Some hs)
  then show ?thesis by (simp add: index_state_def sort_headings_idem Let_def split: sum.splits)
qed

text \<open>
  Claim C9.  \<open>markdownImport\<close> reads no clock, no random source and no state of its own:
  with the imported helpers as functions, the page is a function of the path, the text,
  the outline and the flag.  The one trace a run leaves is the in-place sort of the
  caller's headings.  A second run on the same inputs, with the outline as the first run
  left it, returns the same result as the first, sections, blocks, ordinals, spans and
  metadata included, and leaves the outline as it found it.
\<close>

theorem reindexing_is_deterministic:
  "fst (markdownImport H path markdown
          (snd (markdownImport H path markdown metadata excludeExample)) excludeExample) =
     fst (markdownImport H path markdown metadata excludeExample) \<and>
   snd (markdownImport H path markdown
          (snd (markdownImport H path markdown metadata excludeExample)) excludeExample) =
     snd (markdownImport H path markdown metadata excludeExample)"
proof -
  let ?m1 = "metadata\<lparr> md_headings := map_option sort_headings (md_headings metadata) \<rparr>"
  have s: "snd (markdownImport H path markdown metadata excludeExample) = ?m1"
    by (simp add: markdownImport_def Let_def split: sum.splits)
  have i: "index_state H path markdown ?m1 excludeExample =
           index_state H path markdown metadata excludeExample"
    by (rule index_state_resorted)
  have m: "?m1\<lparr> md_headings := map_option sort_headings (md_headings ?m1) \<rparr> = ?m1"
    by (cases "md_headings metadata") (simp_all add: sort_headings_idem)
  have f: "md_frontmatterLinks ?m1 = md_frontmatterLinks metadata" by simp
  show ?thesis
    unfolding s unfolding markdownImport_def Let_def i m f by (simp split: sum.splits)
qed

section \<open>Properties of the link pass\<close>

lemma addLink_has: "equals l l \<Longrightarrow> has_link equals l (addLink equals ls l)"
  by (auto simp: has_link_def addLink_def list_ex_iff)

lemma addLink_mono: "has_link equals l ls \<Longrightarrow> has_link equals l (addLink equals ls x)"
  by (auto simp: has_link_def addLink_def list_ex_iff)

lemma addLink_nodup:
  assumes sym: "\<forall>a b. equals a b \<longrightarrow> equals b a" and n: "nodup equals ls"
  shows "nodup equals (addLink equals ls x)"
proof (cases "list_ex (\<lambda>v. equals v x) ls")
  case True
  then show ?thesis using n by (simp add: addLink_def)
next
  case False
  then have nx: "\<forall>v\<in>set ls. \<not> equals v x" by (simp add: list_ex_iff)
  have "\<not> equals ((ls @ [x]) ! i) ((ls @ [x]) ! j)"
    if ij: "i < length (ls @ [x])" "j < length (ls @ [x])" "i \<noteq> j" for i j
  proof (cases "i < length ls")
    case i: True
    show ?thesis
    proof (cases "j < length ls")
      case True
      then show ?thesis using n i ij(3) by (simp add: nodup_def nth_append)
    next
      case False
      with ij(2) have "j = length ls" by simp
      then show ?thesis using nx i by (simp add: nth_append)
    qed
  next
    case False
    with ij(1) have i: "i = length ls" by simp
    with ij(2,3) have j: "j < length ls" by simp
    have "\<not> equals (ls ! j) x" using nx j by simp
    then have "\<not> equals x (ls ! j)" using sym by blast
    then show ?thesis using i j by (simp add: nth_append)
  qed
  then have "nodup equals (ls @ [x])" unfolding nodup_def by blast
  then show ?thesis using False by (simp add: addLink_def)
qed

lemma lower_modify:
  "getPairOrNextLower k (bt_modify k0 f t) =
     map_option (\<lambda>e. (fst e, if fst e = k0 then f (snd e) else snd e)) (getPairOrNextLower k t)"
proof (induction t)
  case Nil
  then show ?case by (simp add: bt_modify_def)
next
  case (Cons p t)
  obtain k' v' where p: "p = (k', v')" by (cases p)
  have u: "bt_modify k0 f (p # t) = (k', if k' = k0 then f v' else v') # bt_modify k0 f t"
    by (simp add: bt_modify_def p)
  show ?case unfolding u using Cons.IH
    by (cases "getPairOrNextLower k t") (auto simp: p)
qed

lemma higher_modify:
  "getPairOrNextHigher k (bt_modify k0 f t) =
     map_option (\<lambda>e. (fst e, if fst e = k0 then f (snd e) else snd e)) (getPairOrNextHigher k t)"
proof (induction t)
  case Nil
  then show ?case by (simp add: bt_modify_def)
next
  case (Cons p t)
  obtain k' v' where p: "p = (k', v')" by (cases p)
  have u: "bt_modify k0 f (p # t) = (k', if k' = k0 then f v' else v') # bt_modify k0 f t"
    by (simp add: bt_modify_def p)
  show ?case unfolding u using Cons.IH by (auto simp: p)
qed

lemma bt_modify_alt:
  "bt_modify k0 f t = map (\<lambda>e. (fst e, if fst e = k0 then f (snd e) else snd e)) t"
  by (simp add: bt_modify_def case_prod_beta)

lemma set_modify:
  "e \<in> set (bt_modify k0 f t) \<Longrightarrow>
   \<exists>e0\<in>set t. e = (fst e0, if fst e0 = k0 then f (snd e0) else snd e0)"
  unfolding bt_modify_alt by (metis (mono_tags, lifting) imageE list.set_map)

lemma lower_modify_Some:
  "getPairOrNextLower k (bt_modify k0 f t) = Some e \<Longrightarrow>
   \<exists>e0. getPairOrNextLower k t = Some e0 \<and> e = (fst e0, if fst e0 = k0 then f (snd e0) else snd e0)"
  unfolding lower_modify by (cases "getPairOrNextLower k t") simp_all

lemma higher_modify_Some:
  "getPairOrNextHigher k (bt_modify k0 f t) = Some e \<Longrightarrow>
   \<exists>e0. getPairOrNextHigher k t = Some e0 \<and> e = (fst e0, if fst e0 = k0 then f (snd e0) else snd e0)"
  unfolding higher_modify by (cases "getPairOrNextHigher k t") simp_all

text \<open>Sections: the lookup after a step.\<close>

lemma add_section_link_shape:
  "add_section_link equals lnk ln found sections =
     (case found of
        None \<Rightarrow> sections
      | Some sec \<Rightarrow> if s_end (snd sec) \<ge> ln
                    then bt_modify (fst sec) (push_section_link equals lnk) sections else sections)"
  unfolding add_section_link_def push_section_link_def ..

lemma add_block_link_shape:
  "add_block_link equals lnk ln found blocks =
     (case found of
        None \<Rightarrow> blocks
      | Some blk \<Rightarrow> if b_end (snd blk) \<ge> ln
                    then bt_modify (fst blk) (push_block_link equals lnk) blocks else blocks)"
  unfolding add_block_link_def push_block_link_def ..

lemma add_section_link_cases:
  "add_section_link equals lnk ln found sections = sections \<or>
   (\<exists>k0. add_section_link equals lnk ln found sections =
           bt_modify k0 (push_section_link equals lnk) sections)"
  unfolding add_section_link_shape by (cases found) auto

lemma add_block_link_cases:
  "add_block_link equals lnk ln found blocks = blocks \<or>
   (\<exists>k0. add_block_link equals lnk ln found blocks =
           bt_modify k0 (push_block_link equals lnk) blocks)"
  unfolding add_block_link_shape by (cases found) auto

lemma push_section_facts:
  "s_end (push_section_link equals lnk s) = s_end s"
  "has_link equals l (s_links s) \<Longrightarrow> has_link equals l (s_links (push_section_link equals lnk s))"
  "equals lnk lnk \<Longrightarrow> has_link equals lnk (s_links (push_section_link equals lnk s))"
  by (simp_all add: push_section_link_def addLink_mono addLink_has)

lemma push_block_facts:
  "b_end (push_block_link equals lnk b) = b_end b"
  "has_link equals l (b_links b) \<Longrightarrow> has_link equals l (b_links (push_block_link equals lnk b))"
  "equals lnk lnk \<Longrightarrow> has_link equals lnk (b_links (push_block_link equals lnk b))"
  by (simp_all add: push_block_link_def addLink_mono addLink_has)

lemma section_lookup_step:
  assumes "getPairOrNextLower k (add_section_link equals lnk ln found sections) = Some e"
  shows "\<exists>e0. getPairOrNextLower k sections = Some e0 \<and> s_end (snd e) = s_end (snd e0) \<and>
        (\<forall>l. has_link equals l (s_links (snd e0)) \<longrightarrow> has_link equals l (s_links (snd e)))"
proof -
  from add_section_link_cases[of equals lnk ln found sections]
  show ?thesis
  proof
    assume "add_section_link equals lnk ln found sections = sections"
    with assms show ?thesis by auto
  next
    assume "\<exists>k0. add_section_link equals lnk ln found sections =
           bt_modify k0 (push_section_link equals lnk) sections"
    then obtain k0 where "add_section_link equals lnk ln found sections =
           bt_modify k0 (push_section_link equals lnk) sections" by blast
    with assms lower_modify_Some obtain e0 where e0: "getPairOrNextLower k sections = Some e0"
      "e = (fst e0, if fst e0 = k0 then push_section_link equals lnk (snd e0) else snd e0)"
      by metis
    show ?thesis
      by (rule exI[of _ e0]) (simp add: e0 push_section_facts)
  qed
qed

lemma section_attach_step:
  assumes r: "equals lnk lnk"
    and l: "getPairOrNextLower ln (add_section_link equals lnk ln (getPairOrNextLower ln sections) sections) = Some e"
    and g: "s_end (snd e) \<ge> ln"
  shows "has_link equals lnk (s_links (snd e))"
proof (cases "getPairOrNextLower ln sections")
  case None
  with l show ?thesis by (simp add: add_section_link_shape)
next
  case (Some sec)
  show ?thesis
  proof (cases "s_end (snd sec) \<ge> ln")
    case True
    with Some l have "getPairOrNextLower ln (bt_modify (fst sec) (push_section_link equals lnk) sections) = Some e"
      by (simp add: add_section_link_shape)
    then have "e = (fst sec, push_section_link equals lnk (snd sec))"
      unfolding lower_modify Some by simp
    then show ?thesis using r by (simp add: push_section_facts)
  next
    case False
    with Some l g show ?thesis by (simp add: add_section_link_shape)
  qed
qed

lemma section_nodup_step:
  assumes sym: "\<forall>a b. equals a b \<longrightarrow> equals b a"
    and n: "\<forall>e\<in>set sections. nodup equals (s_links (snd e))"
  shows "\<forall>e\<in>set (add_section_link equals lnk ln found sections). nodup equals (s_links (snd e))"
proof
  fix e assume e: "e \<in> set (add_section_link equals lnk ln found sections)"
  from add_section_link_cases[of equals lnk ln found sections]
  show "nodup equals (s_links (snd e))"
  proof
    assume "add_section_link equals lnk ln found sections = sections"
    with e n show ?thesis by simp
  next
    assume "\<exists>k0. add_section_link equals lnk ln found sections =
           bt_modify k0 (push_section_link equals lnk) sections"
    then obtain k0 where "add_section_link equals lnk ln found sections =
           bt_modify k0 (push_section_link equals lnk) sections" by blast
    with e set_modify obtain e0 where e0: "e0 \<in> set sections"
      "e = (fst e0, if fst e0 = k0 then push_section_link equals lnk (snd e0) else snd e0)"
      by metis
    from e0(1) n have "nodup equals (s_links (snd e0))" by blast
    then show ?thesis using addLink_nodup[OF sym] e0(2) by (simp add: push_section_link_def)
  qed
qed

text \<open>Blocks: the same, for both lookups.\<close>

lemma block_lower_step:
  assumes "getPairOrNextLower k (add_block_link equals lnk ln found blocks) = Some e"
  shows "\<exists>e0. getPairOrNextLower k blocks = Some e0 \<and> b_end (snd e) = b_end (snd e0) \<and>
        (\<forall>l. has_link equals l (b_links (snd e0)) \<longrightarrow> has_link equals l (b_links (snd e)))"
proof -
  from add_block_link_cases[of equals lnk ln found blocks]
  show ?thesis
  proof
    assume "add_block_link equals lnk ln found blocks = blocks"
    with assms show ?thesis by auto
  next
    assume "\<exists>k0. add_block_link equals lnk ln found blocks =
           bt_modify k0 (push_block_link equals lnk) blocks"
    then obtain k0 where "add_block_link equals lnk ln found blocks =
           bt_modify k0 (push_block_link equals lnk) blocks" by blast
    with assms lower_modify_Some obtain e0 where e0: "getPairOrNextLower k blocks = Some e0"
      "e = (fst e0, if fst e0 = k0 then push_block_link equals lnk (snd e0) else snd e0)"
      by metis
    show ?thesis
      by (rule exI[of _ e0]) (simp add: e0 push_block_facts)
  qed
qed

lemma block_higher_step:
  assumes "getPairOrNextHigher k (add_block_link equals lnk ln found blocks) = Some e"
  shows "\<exists>e0. getPairOrNextHigher k blocks = Some e0 \<and> b_end (snd e) = b_end (snd e0) \<and>
        (\<forall>l. has_link equals l (b_links (snd e0)) \<longrightarrow> has_link equals l (b_links (snd e)))"
proof -
  from add_block_link_cases[of equals lnk ln found blocks]
  show ?thesis
  proof
    assume "add_block_link equals lnk ln found blocks = blocks"
    with assms show ?thesis by auto
  next
    assume "\<exists>k0. add_block_link equals lnk ln found blocks =
           bt_modify k0 (push_block_link equals lnk) blocks"
    then obtain k0 where "add_block_link equals lnk ln found blocks =
           bt_modify k0 (push_block_link equals lnk) blocks" by blast
    with assms higher_modify_Some obtain e0 where e0: "getPairOrNextHigher k blocks = Some e0"
      "e = (fst e0, if fst e0 = k0 then push_block_link equals lnk (snd e0) else snd e0)"
      by metis
    show ?thesis
      by (rule exI[of _ e0]) (simp add: e0 push_block_facts)
  qed
qed

lemma block_lower_attach:
  assumes r: "equals lnk lnk"
    and l: "getPairOrNextLower ln (add_block_link equals lnk ln (getPairOrNextLower ln blocks) blocks) = Some e"
    and g: "b_end (snd e) \<ge> ln"
  shows "has_link equals lnk (b_links (snd e))"
proof (cases "getPairOrNextLower ln blocks")
  case None
  with l show ?thesis by (simp add: add_block_link_shape)
next
  case (Some blk)
  show ?thesis
  proof (cases "b_end (snd blk) \<ge> ln")
    case True
    with Some l have "getPairOrNextLower ln (bt_modify (fst blk) (push_block_link equals lnk) blocks) = Some e"
      by (simp add: add_block_link_shape)
    then have "e = (fst blk, push_block_link equals lnk (snd blk))"
      unfolding lower_modify Some by simp
    then show ?thesis using r by (simp add: push_block_facts)
  next
    case False
    with Some l g show ?thesis by (simp add: add_block_link_shape)
  qed
qed

lemma block_higher_attach:
  assumes r: "equals lnk lnk"
    and l: "getPairOrNextHigher ln (add_block_link equals lnk ln (getPairOrNextHigher ln blocks) blocks) = Some e"
    and g: "b_end (snd e) \<ge> ln"
  shows "has_link equals lnk (b_links (snd e))"
proof (cases "getPairOrNextHigher ln blocks")
  case None
  with l show ?thesis by (simp add: add_block_link_shape)
next
  case (Some blk)
  show ?thesis
  proof (cases "b_end (snd blk) \<ge> ln")
    case True
    with Some l have "getPairOrNextHigher ln (bt_modify (fst blk) (push_block_link equals lnk) blocks) = Some e"
      by (simp add: add_block_link_shape)
    then have "e = (fst blk, push_block_link equals lnk (snd blk))"
      unfolding higher_modify Some by simp
    then show ?thesis using r by (simp add: push_block_facts)
  next
    case False
    with Some l g show ?thesis by (simp add: add_block_link_shape)
  qed
qed

lemma block_nodup_step:
  assumes sym: "\<forall>a b. equals a b \<longrightarrow> equals b a"
    and n: "\<forall>e\<in>set blocks. nodup equals (b_links (snd e))"
  shows "\<forall>e\<in>set (add_block_link equals lnk ln found blocks). nodup equals (b_links (snd e))"
proof
  fix e assume e: "e \<in> set (add_block_link equals lnk ln found blocks)"
  from add_block_link_cases[of equals lnk ln found blocks]
  show "nodup equals (b_links (snd e))"
  proof
    assume "add_block_link equals lnk ln found blocks = blocks"
    with e n show ?thesis by simp
  next
    assume "\<exists>k0. add_block_link equals lnk ln found blocks =
           bt_modify k0 (push_block_link equals lnk) blocks"
    then obtain k0 where "add_block_link equals lnk ln found blocks =
           bt_modify k0 (push_block_link equals lnk) blocks" by blast
    with e set_modify obtain e0 where e0: "e0 \<in> set blocks"
      "e = (fst e0, if fst e0 = k0 then push_block_link equals lnk (snd e0) else snd e0)"
      by metis
    from e0(1) n have "nodup equals (b_links (snd e0))" by blast
    then show ?thesis using addLink_nodup[OF sym] e0(2) by (simp add: push_block_link_def)
  qed
qed

lemma link_step_parts:
  "link_step H (links, sections, blocks) ld =
     (addLink (link_equals H) links (link_of H ld),
      add_section_link (link_equals H) (link_of H ld) (line_of ld)
        (getPairOrNextLower (line_of ld) sections) sections,
      add_block_link (link_equals H) (link_of H ld) (line_of ld)
        (getPairOrNextHigher (line_of ld)
           (add_block_link (link_equals H) (link_of H ld) (line_of ld)
              (getPairOrNextLower (line_of ld) blocks) blocks))
        (add_block_link (link_equals H) (link_of H ld) (line_of ld)
           (getPairOrNextLower (line_of ld) blocks) blocks))"
  by (simp add: link_step_def Let_def link_of_def line_of_def)

lemma link_step_attach:
  assumes r: "link_equals H (link_of H ld) (link_of H ld)"
  shows "attached (link_equals H) (link_of H ld) (line_of ld) (link_step H st ld)"
proof -
  obtain links sections blocks where st: "st = (links, sections, blocks)" by (cases st)
  let ?eq = "link_equals H" and ?l = "link_of H ld" and ?n = "line_of ld"
  let ?b1 = "add_block_link ?eq ?l ?n (getPairOrNextLower ?n blocks) blocks"
  let ?b2 = "add_block_link ?eq ?l ?n (getPairOrNextHigher ?n ?b1) ?b1"
  have low: "has_link ?eq ?l (b_links (snd e))"
    if e: "getPairOrNextLower ?n ?b2 = Some e" "b_end (snd e) \<ge> ?n" for e
  proof -
    from block_lower_step[OF e(1)] obtain e0 where e0: "getPairOrNextLower ?n ?b1 = Some e0"
      "b_end (snd e) = b_end (snd e0)"
      "\<forall>l. has_link ?eq l (b_links (snd e0)) \<longrightarrow> has_link ?eq l (b_links (snd e))" by blast
    from block_lower_attach[OF r e0(1)] e(2) e0(2) have "has_link ?eq ?l (b_links (snd e0))" by simp
    with e0(3) show ?thesis by blast
  qed
  show ?thesis
    unfolding st link_step_parts attached_def
    using addLink_has[of ?eq ?l links, OF r]
      section_attach_step[of ?eq ?l ?n sections, OF r] low
      block_higher_attach[of ?eq ?l ?n ?b1, OF r]
    by auto
qed

lemma link_step_mono:
  assumes a: "attached (link_equals H) l n st"
  shows "attached (link_equals H) l n (link_step H st ld)"
proof -
  obtain links sections blocks where st: "st = (links, sections, blocks)" by (cases st)
  let ?eq = "link_equals H" and ?l = "link_of H ld" and ?n = "line_of ld"
  let ?s1 = "add_section_link ?eq ?l ?n (getPairOrNextLower ?n sections) sections"
  let ?b1 = "add_block_link ?eq ?l ?n (getPairOrNextLower ?n blocks) blocks"
  let ?b2 = "add_block_link ?eq ?l ?n (getPairOrNextHigher ?n ?b1) ?b1"
  from a have a1: "has_link ?eq l links"
    and a2: "\<And>e. getPairOrNextLower n sections = Some e \<Longrightarrow> s_end (snd e) \<ge> n \<Longrightarrow> has_link ?eq l (s_links (snd e))"
    and a3: "\<And>e. getPairOrNextLower n blocks = Some e \<Longrightarrow> b_end (snd e) \<ge> n \<Longrightarrow> has_link ?eq l (b_links (snd e))"
    and a4: "\<And>e. getPairOrNextHigher n blocks = Some e \<Longrightarrow> b_end (snd e) \<ge> n \<Longrightarrow> has_link ?eq l (b_links (snd e))"
    unfolding st attached_def by auto
  have s: "has_link ?eq l (s_links (snd e))"
    if e: "getPairOrNextLower n ?s1 = Some e" "s_end (snd e) \<ge> n" for e
  proof -
    from section_lookup_step[OF e(1)] obtain e0 where e0: "getPairOrNextLower n sections = Some e0"
      "s_end (snd e) = s_end (snd e0)"
      "\<forall>l. has_link ?eq l (s_links (snd e0)) \<longrightarrow> has_link ?eq l (s_links (snd e))" by blast
    from a2[OF e0(1)] e(2) e0(2) have "has_link ?eq l (s_links (snd e0))" by simp
    with e0(3) show ?thesis by blast
  qed
  have bl: "has_link ?eq l (b_links (snd e))"
    if e: "getPairOrNextLower n ?b2 = Some e" "b_end (snd e) \<ge> n" for e
  proof -
    from block_lower_step[OF e(1)] obtain e1 where e1: "getPairOrNextLower n ?b1 = Some e1"
      "b_end (snd e) = b_end (snd e1)"
      "\<forall>l. has_link ?eq l (b_links (snd e1)) \<longrightarrow> has_link ?eq l (b_links (snd e))" by blast
    from block_lower_step[OF e1(1)] obtain e0 where e0: "getPairOrNextLower n blocks = Some e0"
      "b_end (snd e1) = b_end (snd e0)"
      "\<forall>l. has_link ?eq l (b_links (snd e0)) \<longrightarrow> has_link ?eq l (b_links (snd e1))" by blast
    from a3[OF e0(1)] e(2) e1(2) e0(2) have "has_link ?eq l (b_links (snd e0))" by simp
    with e0(3) e1(3) show ?thesis by blast
  qed
  have bh: "has_link ?eq l (b_links (snd e))"
    if e: "getPairOrNextHigher n ?b2 = Some e" "b_end (snd e) \<ge> n" for e
  proof -
    from block_higher_step[OF e(1)] obtain e1 where e1: "getPairOrNextHigher n ?b1 = Some e1"
      "b_end (snd e) = b_end (snd e1)"
      "\<forall>l. has_link ?eq l (b_links (snd e1)) \<longrightarrow> has_link ?eq l (b_links (snd e))" by blast
    from block_higher_step[OF e1(1)] obtain e0 where e0: "getPairOrNextHigher n blocks = Some e0"
      "b_end (snd e1) = b_end (snd e0)"
      "\<forall>l. has_link ?eq l (b_links (snd e0)) \<longrightarrow> has_link ?eq l (b_links (snd e1))" by blast
    from a4[OF e0(1)] e(2) e1(2) e0(2) have "has_link ?eq l (b_links (snd e0))" by simp
    with e0(3) e1(3) show ?thesis by blast
  qed
  show ?thesis
    unfolding st link_step_parts attached_def
    using addLink_mono[OF a1] s bl bh by auto
qed

lemma link_step_nodup:
  assumes sym: "\<forall>a b. link_equals H a b \<longrightarrow> link_equals H b a"
    and n: "all_nodup (link_equals H) st"
  shows "all_nodup (link_equals H) (link_step H st ld)"
proof -
  obtain links sections blocks where st: "st = (links, sections, blocks)" by (cases st)
  from n have n1: "nodup (link_equals H) links"
    and n2: "\<forall>e\<in>set sections. nodup (link_equals H) (s_links (snd e))"
    and n3: "\<forall>e\<in>set blocks. nodup (link_equals H) (b_links (snd e))"
    unfolding st all_nodup_def by simp_all
  show ?thesis
    unfolding st link_step_parts all_nodup_def
    using addLink_nodup[OF sym n1] section_nodup_step[OF sym n2]
      block_nodup_step[OF sym block_nodup_step[OF sym n3]]
    by simp
qed

lemma add_links_mono:
  "attached (link_equals H) l n st \<Longrightarrow> attached (link_equals H) l n (add_links H st lds)"
  unfolding add_links_def
  by (induction lds arbitrary: st) (simp_all add: link_step_mono)

lemma add_links_attach:
  assumes r: "\<forall>a. link_equals H a a" and m: "ld \<in> set lds"
  shows "attached (link_equals H) (link_of H ld) (line_of ld) (add_links H st lds)"
  using m
proof (induction lds arbitrary: st)
  case Nil
  then show ?case by simp
next
  case (Cons x xs)
  have u: "add_links H st (x # xs) = add_links H (link_step H st x) xs"
    by (simp add: add_links_def)
  show ?case
  proof (cases "ld = x")
    case True
    have "attached (link_equals H) (link_of H ld) (line_of ld) (link_step H st x)"
      unfolding True using r by (intro link_step_attach) simp
    then show ?thesis unfolding u by (rule add_links_mono)
  next
    case False
    with Cons.prems have "ld \<in> set xs" by simp
    then show ?thesis unfolding u by (rule Cons.IH)
  qed
qed

lemma add_links_nodup:
  assumes sym: "\<forall>a b. link_equals H a b \<longrightarrow> link_equals H b a"
  shows "all_nodup (link_equals H) st \<Longrightarrow> all_nodup (link_equals H) (add_links H st lds)"
  unfolding add_links_def
  by (induction lds arbitrary: st) (simp_all add: link_step_nodup[OF sym])

lemma frontmatter_mono:
  "has_link (link_equals H) l links \<Longrightarrow> has_link (link_equals H) l (add_frontmatter_links H links fls)"
  unfolding add_frontmatter_links_def
  by (induction fls arbitrary: links) (simp_all add: addLink_mono)

lemma frontmatter_attach:
  assumes r: "\<forall>a. link_equals H a a" and m: "fl \<in> set fls"
  shows "has_link (link_equals H) (link_infer_frontmatter H (fl_link fl) (fl_displayText fl))
           (add_frontmatter_links H links fls)"
  using m
proof (induction fls arbitrary: links)
  case Nil
  then show ?case by simp
next
  case (Cons x xs)
  let ?lx = "link_infer_frontmatter H (fl_link x) (fl_displayText x)"
  have u: "add_frontmatter_links H links (x # xs) =
           add_frontmatter_links H (addLink (link_equals H) links ?lx) xs"
    by (simp add: add_frontmatter_links_def)
  show ?case
  proof (cases "fl = x")
    case True
    have "has_link (link_equals H) ?lx (addLink (link_equals H) links ?lx)"
      using r by (intro addLink_has) simp
    then show ?thesis unfolding u True by (rule frontmatter_mono)
  next
    case False
    with Cons.prems have "fl \<in> set xs" by simp
    then show ?thesis unfolding u by (rule Cons.IH)
  qed
qed

lemma frontmatter_nodup:
  assumes sym: "\<forall>a b. link_equals H a b \<longrightarrow> link_equals H b a"
  shows "nodup (link_equals H) links \<Longrightarrow> nodup (link_equals H) (add_frontmatter_links H links fls)"
  unfolding add_frontmatter_links_def
  by (induction fls arbitrary: links) (simp_all add: addLink_nodup[OF sym])

lemma set_bt_set: "set (bt_set k v t) \<subseteq> insert (k, v) (set t)"
proof (induction t)
  case Nil
  then show ?case by simp
next
  case (Cons p t)
  then show ?case by (cases p) auto
qed

lemma heading_sections_links:
  "\<forall>e\<in>set t. s_links (snd e) = [] \<Longrightarrow>
   \<forall>e\<in>set (heading_sections n hs index t). s_links (snd e) = []"
proof (induction hs arbitrary: t index)
  case Nil
  then show ?case by simp
next
  case (Cons h rest)
  show ?case
    unfolding heading_sections.simps Let_def
    by (rule Cons.IH) (use Cons.prems set_bt_set in fastforce)
qed

lemma build_sections_links:
  fixes H :: "('s, 'l) helpers"
  assumes "build_sections H path lines hs = Inr secs"
  shows "\<forall>e\<in>set secs. s_links (snd e) = []"
proof -
  let ?t = "heading_sections (length lines) hs 0 ([] :: 'l markdown_section btree)"
  have t: "\<forall>e\<in>set ?t. s_links (snd e) = []"
    by (rule heading_sections_links) simp
  have i: "\<forall>e\<in>set (bt_set 0 (implicit_section H path endl) ?t). s_links (snd e) = []" for endl
    using t set_bt_set[of 0 "implicit_section H path endl" ?t]
    by (auto simp: implicit_section_def)
  have "secs = ?t \<or> (\<exists>endl. secs = bt_set 0 (implicit_section H path endl) ?t)"
  proof (cases "getPairOrNextHigher 0 ?t")
    case None
    with assms show ?thesis
      unfolding build_sections_def add_implicit_section_def
      by (cases "empty_doc lines") auto
  next
    case (Some fs)
    show ?thesis
    proof (cases "emptylines lines 0 (s_start (snd fs))")
      case (Inl e)
      with assms Some show ?thesis
        unfolding build_sections_def add_implicit_section_def by simp
    next
      case (Inr allEmpty)
      with assms Some show ?thesis
        unfolding build_sections_def add_implicit_section_def
        by (cases allEmpty) auto
    qed
  qed
  with t i show ?thesis by blast
qed

lemma assign_blocks_links:
  assumes "\<forall>e\<in>set secs. s_links (snd e) = []"
  shows "\<forall>e\<in>set (assign_blocks blocks secs). s_links (snd e) = []"
proof -
  have "map (\<lambda>e. s_links (snd e)) (assign_blocks blocks secs) = map (\<lambda>e. s_links (snd e)) secs"
  proof -
    have "map (\<lambda>x. snd (snd x)) (map (\<lambda>e. (fst e, section_core (snd e), s_links (snd e))) (assign_blocks blocks secs)) =
          map (\<lambda>x. snd (snd x)) (map (\<lambda>e. (fst e, section_core (snd e), s_links (snd e))) secs)"
      using assign_blocks_core[of blocks secs] by simp
    then show ?thesis by (simp add: comp_def)
  qed
  then have "set (map (\<lambda>e. s_links (snd e)) (assign_blocks blocks secs)) = set (map (\<lambda>e. s_links (snd e)) secs)"
    by simp
  with assms show ?thesis by auto
qed

lemma set_apply_writes: "set (apply_writes t ws) \<subseteq> set t \<union> set ws"
proof (induction ws arbitrary: t)
  case Nil
  then show ?case by (simp add: apply_writes_def)
next
  case (Cons w ws)
  have "apply_writes t (w # ws) = apply_writes (bt_set (fst w) (snd w) t) ws"
    by (simp add: apply_writes_def)
  then show ?case using Cons.IH[of "bt_set (fst w) (snd w) t"] set_bt_set[of "fst w" "snd w" t]
    by auto
qed

lemma step_writes_links:
  "\<forall>w\<in>set (step_writes H lines markdown excludeExample n block). b_links (snd w) = []"
  by (auto simp: step_writes_def equation_block_def nested_equation_block_def
      theorem_block_def generic_block_def Let_def split: option.splits)

lemma all_writes_links:
  "\<forall>w\<in>set (all_writes H lines markdown excludeExample n metasections). b_links (snd w) = []"
proof (induction metasections arbitrary: n)
  case Nil
  then show ?case by simp
next
  case (Cons block rest)
  then show ?case using step_writes_links[of H lines markdown excludeExample n block]
    by (auto simp: Let_def)
qed

lemma build_blocks_links:
  "\<forall>e\<in>set (fst (build_blocks H lines markdown excludeExample metasections)). b_links (snd e) = []"
  using set_apply_writes[of "[]" "all_writes H lines markdown excludeExample 1 metasections"]
    all_writes_links[of H lines markdown excludeExample 1 metasections]
  by (auto simp: build_blocks_writes)

lemma nodup_Nil: "nodup equals []"
  by (simp add: nodup_def)

text \<open>
  Claim C6.  Let link equality be reflexive and symmetric, and let the loop over
  \<open>metadata.links\<close> end with the page's list \<open>links\<close>, the sections and the blocks.  For
  every entry of \<open>metadata.links\<close>, with its link and its line: \<open>links\<close> has the link; the
  section that the at-or-below lookup on the line finds has it when its end is at or
  after the line; so has the block that the at-or-below lookup finds, and the block
  that the at-or-above lookup finds, each when its end is at or after the line.  No link
  list, of the page, of a section or of a block, holds two equal links.  The page
  returned has these sections and blocks; its link list has every link of \<open>links\<close> and
  every frontmatter link, without duplicates; and the sections and blocks do not depend
  on the frontmatter links: whatever these are, the loop ends in the same state.
\<close>

theorem links_attached:
  fixes H :: "('s, 'l) helpers"
  assumes r: "\<forall>a. link_equals H a a"
    and sym: "\<forall>a b. link_equals H a b \<longrightarrow> link_equals H b a"
    and st: "index_state H path markdown metadata excludeExample = Inr (links, sections, blocks)"
  shows "(\<forall>ld\<in>set (case md_links metadata of None \<Rightarrow> [] | Some ls \<Rightarrow> ls).
            has_link (link_equals H) (link_of H ld) links \<and>
            (\<forall>e. getPairOrNextLower (line_of ld) sections = Some e \<and> s_end (snd e) \<ge> line_of ld
                 \<longrightarrow> has_link (link_equals H) (link_of H ld) (s_links (snd e))) \<and>
            (\<forall>e. getPairOrNextLower (line_of ld) blocks = Some e \<and> b_end (snd e) \<ge> line_of ld
                 \<longrightarrow> has_link (link_equals H) (link_of H ld) (b_links (snd e))) \<and>
            (\<forall>e. getPairOrNextHigher (line_of ld) blocks = Some e \<and> b_end (snd e) \<ge> line_of ld
                 \<longrightarrow> has_link (link_equals H) (link_of H ld) (b_links (snd e)))) \<and>
         nodup (link_equals H) links \<and>
         (\<forall>e\<in>set sections. nodup (link_equals H) (s_links (snd e))) \<and>
         (\<forall>e\<in>set blocks. nodup (link_equals H) (b_links (snd e))) \<and>
         (\<exists>page. fst (markdownImport H path markdown metadata excludeExample) = Inr page \<and>
            p_sections page = map (json_section_of blocks) (bt_values sections) \<and>
            nodup (link_equals H) (p_links page) \<and>
            (\<forall>l. has_link (link_equals H) l links \<longrightarrow> has_link (link_equals H) l (p_links page)) \<and>
            (\<forall>fl\<in>set (case md_frontmatterLinks metadata of None \<Rightarrow> [] | Some ls \<Rightarrow> ls).
               has_link (link_equals H) (link_infer_frontmatter H (fl_link fl) (fl_displayText fl))
                 (p_links page))) \<and>
         (\<forall>fls. index_state H path markdown (metadata\<lparr> md_frontmatterLinks := fls \<rparr>) excludeExample
                  = Inr (links, sections, blocks))"
proof -
  let ?eq = "link_equals H"
  let ?lds = "case md_links metadata of None \<Rightarrow> [] | Some ls \<Rightarrow> ls"
  let ?fls = "case md_frontmatterLinks metadata of None \<Rightarrow> [] | Some ls \<Rightarrow> ls"
  let ?hs = "case md_headings metadata of None \<Rightarrow> [] | Some hs \<Rightarrow> sort_headings hs"
  let ?b0 = "fst (build_blocks H (split_nl markdown) markdown excludeExample
                    (case md_sections metadata of None \<Rightarrow> [] | Some ss \<Rightarrow> ss))"
  from st obtain secs where secs: "build_sections H path (split_nl markdown) ?hs = Inr secs"
    and fin: "add_links H ([], assign_blocks ?b0 secs, ?b0) ?lds = (links, sections, blocks)"
    unfolding index_state_def Let_def by (auto split: sum.splits)
  let ?st0 = "([], assign_blocks ?b0 secs, ?b0) :: 'l list \<times> 'l markdown_section btree \<times> ('s, 'l) block btree"
  have n0: "all_nodup ?eq ?st0"
    unfolding all_nodup_def
    using assign_blocks_links[OF build_sections_links[OF secs], of ?b0]
      build_blocks_links[of H "split_nl markdown" markdown excludeExample]
    by (simp add: nodup_Nil)
  from add_links_nodup[OF sym n0, of ?lds] fin
  have n: "nodup ?eq links" "\<forall>e\<in>set sections. nodup ?eq (s_links (snd e))"
    "\<forall>e\<in>set blocks. nodup ?eq (b_links (snd e))"
    by (simp_all add: all_nodup_def)
  have att: "attached ?eq (link_of H ld) (line_of ld) (links, sections, blocks)" if "ld \<in> set ?lds" for ld
    using add_links_attach[OF r that, of ?st0] fin by simp
  have A: "\<forall>ld\<in>set ?lds.
            has_link ?eq (link_of H ld) links \<and>
            (\<forall>e. getPairOrNextLower (line_of ld) sections = Some e \<and> s_end (snd e) \<ge> line_of ld
                 \<longrightarrow> has_link ?eq (link_of H ld) (s_links (snd e))) \<and>
            (\<forall>e. getPairOrNextLower (line_of ld) blocks = Some e \<and> b_end (snd e) \<ge> line_of ld
                 \<longrightarrow> has_link ?eq (link_of H ld) (b_links (snd e))) \<and>
            (\<forall>e. getPairOrNextHigher (line_of ld) blocks = Some e \<and> b_end (snd e) \<ge> line_of ld
                 \<longrightarrow> has_link ?eq (link_of H ld) (b_links (snd e)))"
    using att unfolding attached_def by simp
  let ?page = "\<lparr> p_path = path, p_links = add_frontmatter_links H links ?fls,
                 p_sections = map (json_section_of blocks) (bt_values sections),
                 p_extension = js ''md'', p_start = 0, p_end = int (length (split_nl markdown)) \<rparr>"
  have pg: "fst (markdownImport H path markdown metadata excludeExample) = Inr ?page"
    by (simp add: markdownImport_def st Let_def)
  have P: "\<exists>page. fst (markdownImport H path markdown metadata excludeExample) = Inr page \<and>
            p_sections page = map (json_section_of blocks) (bt_values sections) \<and>
            nodup ?eq (p_links page) \<and>
            (\<forall>l. has_link ?eq l links \<longrightarrow> has_link ?eq l (p_links page)) \<and>
            (\<forall>fl\<in>set ?fls.
               has_link ?eq (link_infer_frontmatter H (fl_link fl) (fl_displayText fl)) (p_links page))"
    by (rule exI[of _ ?page])
       (simp add: pg frontmatter_nodup[OF sym n(1)] frontmatter_mono frontmatter_attach[OF r])
  have F: "\<forall>fls. index_state H path markdown (metadata\<lparr> md_frontmatterLinks := fls \<rparr>) excludeExample
                  = Inr (links, sections, blocks)"
    using st by (simp add: index_state_def Let_def split: sum.splits)
  from A n(1) n(2) n(3) P F show ?thesis
    by (intro conjI)
qed
theorem links_attached_witness:
  "\<exists>links sections blocks.
     index_state example_helpers (js ''note.md'') example_intro_text example_linked_outline False
       = Inr (links, sections, blocks) \<and>
     links = [js ''Target''] \<and>
     map (\<lambda>e. (fst e, s_links (snd e))) sections = [(0, []), (2, [js ''Target''])] \<and>
     map (\<lambda>e. (fst e, b_links (snd e))) blocks = [(0, []), (3, [js ''Target''])] \<and>
     has_link (=) (js ''Target'') links \<and> nodup (=) links \<and>
     (\<exists>page. fst (markdownImport example_helpers (js ''note.md'') example_intro_text
                    example_linked_outline False) = Inr page \<and>
        has_link (=) (js ''Front'') (p_links page) \<and> nodup (=) (p_links page))"
proof -
  obtain st where st: "index_state example_helpers (js ''note.md'') example_intro_text
      example_linked_outline False = st" by blast
  have ev: "case st of Inl e \<Rightarrow> False
      | Inr s \<Rightarrow> fst s = [js ''Target''] \<and>
          map (\<lambda>e. (fst e, s_links (snd e))) (fst (snd s)) = [(0, []), (2, [js ''Target''])] \<and>
          map (\<lambda>e. (fst e, b_links (snd e))) (snd (snd s)) = [(0, []), (3, [js ''Target''])]"
    unfolding st[symmetric] example_intro_text_def
    by (simp add: import_eval example_linked_outline_def example_intro_outline_def
        example_intro_heading_def example_helpers_def generic_block_def)
  then obtain links sections blocks where s: "st = Inr (links, sections, blocks)"
    and l: "links = [js ''Target'']"
    and m: "map (\<lambda>e. (fst e, s_links (snd e))) sections = [(0, []), (2, [js ''Target''])]"
       "map (\<lambda>e. (fst e, b_links (snd e))) blocks = [(0, []), (3, [js ''Target''])]"
    by (cases st) auto
  have eq: "link_equals example_helpers = (=)" by (simp add: example_helpers_def)
  have r: "\<forall>a. link_equals example_helpers a a" and sy: "\<forall>a b. link_equals example_helpers a b \<longrightarrow> link_equals example_helpers b a"
    by (simp_all add: eq)
  have lds: "(case md_links example_linked_outline of None \<Rightarrow> [] | Some ls \<Rightarrow> ls) =
      [\<lparr> lc_link = js ''Target'',
              lc_position = \<lparr> pos_start = \<lparr> loc_line = 3, loc_col = 0, loc_offset = 12 \<rparr>,
                              pos_end = \<lparr> loc_line = 3, loc_col = 2, loc_offset = 14 \<rparr> \<rparr> \<rparr>,
            \<lparr> lc_link = js ''Target'',
              lc_position = \<lparr> pos_start = \<lparr> loc_line = 3, loc_col = 2, loc_offset = 14 \<rparr>,
                              pos_end = \<lparr> loc_line = 3, loc_col = 4, loc_offset = 16 \<rparr> \<rparr> \<rparr>]"
    by (simp add: example_linked_outline_def)
  have fls: "(case md_frontmatterLinks example_linked_outline of None \<Rightarrow> [] | Some ls \<Rightarrow> ls) =
      [\<lparr> fl_link = js ''Front'', fl_displayText = None \<rparr>]"
    by (simp add: example_linked_outline_def)
  from links_attached[OF r sy st[unfolded s]]
  have A: "\<forall>ld\<in>set (case md_links example_linked_outline of None \<Rightarrow> [] | Some ls \<Rightarrow> ls).
             has_link (link_equals example_helpers) (link_of example_helpers ld) links"
    and n: "nodup (link_equals example_helpers) links"
    and P: "\<exists>page. fst (markdownImport example_helpers (js ''note.md'') example_intro_text
                    example_linked_outline False) = Inr page \<and>
            nodup (link_equals example_helpers) (p_links page) \<and>
            (\<forall>fl\<in>set (case md_frontmatterLinks example_linked_outline of None \<Rightarrow> [] | Some ls \<Rightarrow> ls).
               has_link (link_equals example_helpers)
                 (link_infer_frontmatter example_helpers (fl_link fl) (fl_displayText fl)) (p_links page))"
    by blast+
  from A have h: "has_link (=) (js ''Target'') links"
    unfolding lds eq by (simp add: link_of_def example_helpers_def)
  from P obtain page where "fst (markdownImport example_helpers (js ''note.md'') example_intro_text
                    example_linked_outline False) = Inr page"
    "nodup (=) (p_links page)" "has_link (=) (js ''Front'') (p_links page)"
    unfolding fls eq by (auto simp: example_helpers_def)
  then have P': "\<exists>page. fst (markdownImport example_helpers (js ''note.md'') example_intro_text
                    example_linked_outline False) = Inr page \<and>
        has_link (=) (js ''Front'') (p_links page) \<and> nodup (=) (p_links page)" by blast
  have i: "index_state example_helpers (js ''note.md'') example_intro_text example_linked_outline False
       = Inr (links, sections, blocks)"
    using st s by simp
  have n': "nodup (=) links" using n unfolding eq .
  from i l m(1) m(2) h n' P' show ?thesis
    by (intro exI[of _ links] exI[of _ sections] exI[of _ blocks] conjI)
qed

end
